theory Spec2Isabelle
  imports Complex_Main
begin

section \<open>Numeric model\<close>

text \<open>
  The optimizer of \<^verbatim>\<open>ErgodicHarvestingLib/ergodic.py\<close> computes on numpy arrays of
  float64. A one-dimensional array is a \<^typ>\<open>real list\<close>, the index array
  \<^verbatim>\<open>np.arange(n)\<close> is the list of naturals below \<open>n\<close>. The cost, the gain, the projection
  and the simulation are read in exact arithmetic, without rounding and overflow; the
  functions about whose exact values something is stated are read with the rounding of
  float64 (section \<open>float64 arithmetic\<close>). Every place where Python or
  numpy raises is a branch returning a \<open>py_error\<close>; a float division by zero inside an
  array, which numpy answers with \<^verbatim>\<open>inf\<close> or \<^verbatim>\<open>nan\<close> and a warning, ends the modelled run
  with \<open>NonFinite\<close>.

  The state and the control are one-dimensional (\<^verbatim>\<open>nx = nu = 1\<close>): the source fixes the
  Riccati boundary value to a one-element array and the linearisations to \<^verbatim>\<open>[0]\<close> and
  \<^verbatim>\<open>[1]\<close>. A trajectory array of shape \<^verbatim>\<open>(n, 1)\<close> is the list of its \<open>n\<close> samples.
\<close>

datatype py_error = ValueError | IndexError | ZeroDivisionError | AttributeError | NonFinite

definition bind_res :: "py_error + 'a \<Rightarrow> ('a \<Rightarrow> py_error + 'b) \<Rightarrow> py_error + 'b" where
  "bind_res m f = (case m of Inl e \<Rightarrow> Inl e | Inr v \<Rightarrow> f v)"

subsection \<open>numpy\<close>

definition np_sum :: "real list \<Rightarrow> real" where
  "np_sum xs = sum_list xs"

text \<open>\<^verbatim>\<open>np.linspace(start, stop, num)\<close>; a negative \<^verbatim>\<open>num\<close> raises.\<close>

definition np_linspace :: "real \<Rightarrow> real \<Rightarrow> int \<Rightarrow> py_error + real list" where
  "np_linspace start stop num =
     (if num < 0 then Inl ValueError
      else if num = 1 then Inr [start]
      else Inr (map (\<lambda>i. start + real i * ((stop - start) / real (nat num - 1))) [0..<nat num]))"

text \<open>
  Elementwise binary operations of two one-dimensional arrays broadcast: equal lengths
  combine pointwise, an array of length one is stretched, anything else raises.
\<close>

definition np_broadcast :: "(real \<Rightarrow> real \<Rightarrow> real) \<Rightarrow> real list \<Rightarrow> real list \<Rightarrow> py_error + real list" where
  "np_broadcast f xs ys =
     (if length xs = length ys then Inr (map2 f xs ys)
      else if length xs = 1 then Inr (map (f (hd xs)) ys)
      else if length ys = 1 then Inr (map (\<lambda>x. f x (hd ys)) xs)
      else Inl ValueError)"

text \<open>\<^verbatim>\<open>np.diff\<close>: the differences of neighbouring entries.\<close>

fun np_diff :: "real list \<Rightarrow> real list" where
  "np_diff (a # b # xs) = (b - a) # np_diff (b # xs)"
| "np_diff _ = []"

text \<open>
  \<^verbatim>\<open>trapz(y, x)\<close> of numpy and scipy:
  \<^verbatim>\<open>(diff(x) * (y[1:] + y[:-1]) / 2.0).sum()\<close>.
\<close>

definition trapz :: "real list \<Rightarrow> real list \<Rightarrow> py_error + real" where
  "trapz y x =
     bind_res (np_broadcast (+) (tl y) (butlast y)) (\<lambda>s.
     bind_res (np_broadcast (*) (np_diff x) s) (\<lambda>ds.
     Inr (np_sum (map (\<lambda>v. v / 2) ds))))"

section \<open>The optimizer object\<close>

text \<open>\<^verbatim>\<open>SimParameters.ErgodicParameters\<close>, the fields the optimizer reads.\<close>

record ErgodicParameters =
  wBarrCost :: real
  wErgCost :: real
  wControl :: real
  wInitCtrl :: real
  nFourier :: int
  ergParam_tRes :: int
  ergParam_res :: real
  ergParam_time :: "real list"
  ergParam_eidTime :: "real list"

text \<open>
  An \<^verbatim>\<open>ErgodicOpt\<close> instance (with the attributes of its base class
  \<^verbatim>\<open>ProjectionBasedOpt\<close>). Attributes that the constructor does not set, and that a
  method creates later, are optional: reading one that is absent raises
  \<^verbatim>\<open>AttributeError\<close>. An interpolant is a function of the query point that returns
  a value or raises.
\<close>

record ErgodicOpt =
  nx :: nat
  nu :: nat
  mass :: real
  R :: real
  Quinit :: real
  P1 :: real
  Qn :: real
  Rn :: real
  Qk :: real
  Rk :: real
  time :: "real list"
  odeDeltaT :: real
  barrcost :: real
  ergcost :: real
  Nfourier :: int
  uinit :: real
  dimw :: nat
  wlimit :: real
  tRes :: int
  res :: real
  eidTime :: "real list"
  xlist :: "real list"
  Lambdak :: "real list"
  klist :: "real list"
  hk :: "real list"
  pdf :: "real list option"
  uk :: "real list option"
  ck :: "real list option"
  erg :: "real option"
  X_current :: "real list option"
  U_current :: "real list option"
  A_current :: "real list option"
  B_current :: "real list option"
  a_current :: "real list option"
  b_current :: "real list option"
  A_interp :: "(real \<Rightarrow> py_error + real) option"
  B_interp :: "(real \<Rightarrow> py_error + real) option"
  a_interp :: "(real \<Rightarrow> py_error + real) option"
  b_interp :: "(real \<Rightarrow> py_error + real) option"
  ak :: "real list option"
  K :: "real list option"

text \<open>
  \<^verbatim>\<open>ErgodicOpt.__init__\<close> after \<^verbatim>\<open>ProjectionBasedOpt.__init__\<close>. The base constructor
  reads \<^verbatim>\<open>time[1]\<close> and \<^verbatim>\<open>time[0]\<close>; \<^verbatim>\<open>np.zeros(self.Nfourier)\<close> rejects a negative
  length. \<open>quad\<close> stands for \<^verbatim>\<open>scipy.integrate.quad\<close>: it maps the integrand and the
  two limits to the value it returns for the integral.
\<close>

definition Lambdak_init :: "nat \<Rightarrow> nat \<Rightarrow> real list" where
  "Lambdak_init dimw0 n =
     (let s = (real dimw0 + 1) / 2
      in map (\<lambda>k. 1 / (1 + real (k ^ 2)) powr s) [0..<n])"

definition klist_init :: "real \<Rightarrow> nat \<Rightarrow> real list" where
  "klist_init wlimit0 n = map (\<lambda>k. real k / wlimit0 * pi) [0..<n]"

definition hk_init :: "((real \<Rightarrow> real) \<Rightarrow> real \<Rightarrow> real \<Rightarrow> real) \<Rightarrow> real list \<Rightarrow> real list" where
  "hk_init quad ks = map (\<lambda>kk. sqrt (quad (\<lambda>x. (cos (x * kk)) ^ 2) 0 1)) ks"

definition ErgodicOpt_init ::
  "nat \<Rightarrow> nat \<Rightarrow> ErgodicParameters \<Rightarrow> real \<Rightarrow> ((real \<Rightarrow> real) \<Rightarrow> real \<Rightarrow> real \<Rightarrow> real)
     \<Rightarrow> py_error + ErgodicOpt" where
  "ErgodicOpt_init nx0 nu0 ergParam uinit0 quad =
     (if length (ergParam_time ergParam) < 2 then Inl IndexError
      else bind_res (np_linspace 0 1 (ergParam_tRes ergParam)) (\<lambda>xl.
        if nFourier ergParam < 0 then Inl ValueError
        else Inr \<lparr>
          nx = nx0, nu = nu0, mass = 1,
          R = wControl ergParam, Quinit = wInitCtrl ergParam,
          P1 = 1, Qn = 1, Rn = 1, Qk = 1, Rk = 1,
          time = ergParam_time ergParam,
          odeDeltaT = ergParam_time ergParam ! 1 - ergParam_time ergParam ! 0,
          barrcost = wBarrCost ergParam, ergcost = wErgCost ergParam,
          Nfourier = nFourier ergParam, uinit = uinit0,
          dimw = 1, wlimit = 1,
          tRes = ergParam_tRes ergParam, res = ergParam_res ergParam,
          eidTime = ergParam_eidTime ergParam,
          xlist = xl,
          Lambdak = Lambdak_init 1 (nat (nFourier ergParam)),
          klist = klist_init 1 (nat (nFourier ergParam)),
          hk = hk_init quad (klist_init 1 (nat (nFourier ergParam))),
          pdf = None, uk = None, ck = None, erg = None,
          X_current = None, U_current = None,
          A_current = None, B_current = None, a_current = None, b_current = None,
          A_interp = None, B_interp = None, a_interp = None, b_interp = None,
          ak = None, K = None \<rparr>))"

subsection \<open>A small optimizer instance\<close>

text \<open>
  Three Fourier modes on the grid \<open>0, 1/2, 1\<close>; the quadrature rule standing for
  \<^verbatim>\<open>quad\<close> is the one-panel trapezoid rule.
\<close>

definition ergParam_example :: ErgodicParameters where
  "ergParam_example = \<lparr> wBarrCost = 100, wErgCost = 5, wControl = 1, wInitCtrl = 1,
     nFourier = 3, ergParam_tRes = 3, ergParam_res = 3,
     ergParam_time = [0, 1/2, 1], ergParam_eidTime = [0, 1/2, 1] \<rparr>"

definition quad_example :: "(real \<Rightarrow> real) \<Rightarrow> real \<Rightarrow> real \<Rightarrow> real" where
  "quad_example f a b = (b - a) * (f a + f b) / 2"

text \<open>The instance the constructor builds from these parameters with \<open>uinit = 1\<close>.\<close>

definition opt_example :: ErgodicOpt where
  "opt_example = \<lparr>
     nx = 1, nu = 1, mass = 1, R = 1, Quinit = 1,
     P1 = 1, Qn = 1, Rn = 1, Qk = 1, Rk = 1,
     time = [0, 1/2, 1], odeDeltaT = 1/2,
     barrcost = 100, ergcost = 5, Nfourier = 3, uinit = 1,
     dimw = 1, wlimit = 1, tRes = 3, res = 3,
     eidTime = [0, 1/2, 1], xlist = [0, 1/2, 1],
     Lambdak = Lambdak_init 1 3, klist = klist_init 1 3,
     hk = hk_init quad_example (klist_init 1 3),
     pdf = None, uk = None, ck = None, erg = None,
     X_current = None, U_current = None,
     A_current = None, B_current = None, a_current = None, b_current = None,
     A_interp = None, B_interp = None, a_interp = None, b_interp = None,
     ak = None, K = None \<rparr>"

subsection \<open>Matrix products\<close>

text \<open>
  Modelled from the spec: \<^verbatim>\<open>matmult\<close> of \<^verbatim>\<open>ErgodicHarvestingLib/utils.py\<close> is not among the
  sources. The specification writes its uses as products (\<open>0.5\<cdot>u\<cdot>R\<cdot>u\<close>,
  \<open>K(t) = B(t)\<cdot>P(t)\<close>): the chained matrix product of the arguments, from left to right,
  which for one-dimensional state and control is the product of the scalars.
\<close>

definition matmult :: "real list \<Rightarrow> real" where
  "matmult xs = foldl (*) 1 xs"

subsection \<open>Right-hand sides handed to the integrator\<close>

text \<open>
  The guard \<^verbatim>\<open>t > self.time[-1] or t < self.time[0]\<close> opening each right-hand side;
  indexing an empty grid raises.
\<close>

definition outside_horizon :: "ErgodicOpt \<Rightarrow> real \<Rightarrow> py_error + bool" where
  "outside_horizon self t =
     (if time self = [] then Inl IndexError
      else Inr (t > last (time self) \<or> t < hd (time self)))"

text \<open>
  \<^verbatim>\<open>peqns\<close>: past the guard, \<^verbatim>\<open>pp.reshape(nx, nx)\<close> of the one-element array raises
  unless \<^verbatim>\<open>nx = 1\<close>.
\<close>

definition peqns ::
  "ErgodicOpt \<Rightarrow> real \<Rightarrow> real \<Rightarrow> (real \<Rightarrow> py_error + real) \<Rightarrow> (real \<Rightarrow> py_error + real)
     \<Rightarrow> real \<Rightarrow> real \<Rightarrow> py_error + real" where
  "peqns self t pp Al Bl Rn' Qn' =
     bind_res (outside_horizon self t) (\<lambda>out.
       if out then Inr 0
       else if nx self \<noteq> 1 then Inl ValueError
       else bind_res (Al t) (\<lambda>A. bind_res (Bl t) (\<lambda>B.
         Inr (matmult [pp, A] + matmult [A, pp] - matmult [pp, B, B, pp] + Qn'))))"

definition reqns ::
  "ErgodicOpt \<Rightarrow> real \<Rightarrow> real \<Rightarrow> (real \<Rightarrow> py_error + real) \<Rightarrow> (real \<Rightarrow> py_error + real)
     \<Rightarrow> (real \<Rightarrow> py_error + real) \<Rightarrow> (real \<Rightarrow> py_error + real) \<Rightarrow> (real \<Rightarrow> py_error + real)
     \<Rightarrow> real \<Rightarrow> real \<Rightarrow> py_error + real" where
  "reqns self t rr Al Bl a b Psol' Rn' Qn' =
     bind_res (outside_horizon self t) (\<lambda>out.
       if out then Inr 0
       else let t' = last (time self) - t in
         bind_res (Al t') (\<lambda>A. bind_res (Bl t') (\<lambda>B. bind_res (Psol' t') (\<lambda>P.
         bind_res (a t') (\<lambda>av. bind_res (b t') (\<lambda>bv.
           Inr (matmult [A - matmult [B, B, P], rr] + av - matmult [P, B, bv])))))))"

definition veqns ::
  "real \<Rightarrow> real \<Rightarrow> real \<Rightarrow> real \<Rightarrow> real \<Rightarrow> real \<Rightarrow> real \<Rightarrow> real \<Rightarrow> real \<Rightarrow> real" where
  "veqns zz Al Bl a b Psol' Rsol' Rn' Qn' = matmult [- Bl, Psol', zz] - matmult [Bl, Rsol'] - b"

definition zeqns ::
  "ErgodicOpt \<Rightarrow> real \<Rightarrow> real \<Rightarrow> (real \<Rightarrow> py_error + real) \<Rightarrow> (real \<Rightarrow> py_error + real)
     \<Rightarrow> (real \<Rightarrow> py_error + real) \<Rightarrow> (real \<Rightarrow> py_error + real) \<Rightarrow> (real \<Rightarrow> py_error + real)
     \<Rightarrow> (real \<Rightarrow> py_error + real) \<Rightarrow> real \<Rightarrow> real \<Rightarrow> py_error + real" where
  "zeqns self t zz Al Bl a b Psol' Rsol' Rn' Qn' =
     bind_res (outside_horizon self t) (\<lambda>out.
       if out then Inr 0
       else bind_res (Al t) (\<lambda>A. bind_res (Bl t) (\<lambda>B. bind_res (a t) (\<lambda>av.
         bind_res (b t) (\<lambda>bv. bind_res (Psol' t) (\<lambda>P. bind_res (Rsol' t) (\<lambda>r.
           let vmateq = veqns zz A B av bv P r Rn' Qn'
           in Inr (matmult [A, zz] + matmult [B, vmateq]))))))))"

definition fofx :: "ErgodicOpt \<Rightarrow> real \<Rightarrow> real \<Rightarrow> (real \<Rightarrow> py_error + real) \<Rightarrow> py_error + real" where
  "fofx self t X U =
     bind_res (outside_horizon self t) (\<lambda>out. if out then Inr 0 else U t)"



subsection \<open>Control cost and its gradient\<close>

text \<open>
  \<^verbatim>\<open>cost_pointwise\<close>: \<^verbatim>\<open>self.R\<close> is \<^verbatim>\<open>R * np.eye(nu)\<close>, and the product with the
  one-entry control sample is defined only for \<^verbatim>\<open>nu = 1\<close>.
\<close>

definition cost_pointwise :: "ErgodicOpt \<Rightarrow> real \<Rightarrow> real \<Rightarrow> py_error + real" where
  "cost_pointwise self x u =
     (if nu self \<noteq> 1 then Inl ValueError else Inr (0.5 * matmult [u, R self, u]))"

text \<open>
  The loop \<^verbatim>\<open>for tindex, _ in np.ndenumerate(self.time)\<close> filling an array with a
  pointwise function of \<^verbatim>\<open>X[tindex]\<close> and \<^verbatim>\<open>U[tindex]\<close>; an index past the end of a
  trajectory raises.
\<close>

fun fill_pointwise ::
  "(real \<Rightarrow> real \<Rightarrow> py_error + real) \<Rightarrow> real list \<Rightarrow> real list \<Rightarrow> nat list \<Rightarrow> py_error + real list" where
  "fill_pointwise f X U [] = Inr []"
| "fill_pointwise f X U (i # is) =
     (if length X \<le> i \<or> length U \<le> i then Inl IndexError
      else bind_res (f (X ! i) (U ! i)) (\<lambda>c.
           bind_res (fill_pointwise f X U is) (\<lambda>cs. Inr (c # cs))))"

definition cost :: "ErgodicOpt \<Rightarrow> real list \<Rightarrow> real list \<Rightarrow> py_error + real" where
  "cost self X U =
     bind_res (fill_pointwise (cost_pointwise self) X U [0..<length (time self)]) (\<lambda>c.
       trapz c (time self))"

definition eval_cost :: "ErgodicOpt \<Rightarrow> py_error + real" where
  "eval_cost self =
     (case X_current self of None \<Rightarrow> Inl AttributeError | Some X \<Rightarrow>
        (case U_current self of None \<Rightarrow> Inl AttributeError | Some U \<Rightarrow> cost self X U))"

definition dldu_pointwise :: "ErgodicOpt \<Rightarrow> real \<Rightarrow> real \<Rightarrow> py_error + real" where
  "dldu_pointwise self x u =
     (if nu self \<noteq> 1 then Inl ValueError else Inr (matmult [R self, u]))"

text \<open>
  \<^verbatim>\<open>dldu\<close>: the control gradient on the grid; its first entry receives
  \<^verbatim>\<open>self.uinit * self.Quinit\<close>. The result is stored in \<^verbatim>\<open>self.b_current\<close>.
\<close>

definition dldu :: "ErgodicOpt \<Rightarrow> py_error + (real list \<times> ErgodicOpt)" where
  "dldu self =
     (case X_current self of None \<Rightarrow> Inl AttributeError | Some X \<Rightarrow>
        (case U_current self of None \<Rightarrow> Inl AttributeError | Some U \<Rightarrow>
           bind_res (fill_pointwise (dldu_pointwise self) X U [0..<length (time self)]) (\<lambda>dl.
             if dl = [] then Inl IndexError
             else let dl' = dl[0 := dl ! 0 + uinit self * Quinit self]
                  in Inr (dl', self\<lparr>b_current := Some dl'\<rparr>))))"

text \<open>
  The cost as the specification words it: the trapezoid quadrature of the running cost,
  where the running cost at the first grid point carries the initial-control term
  weighted by \<open>Quinit\<close> (the term whose control derivative \<^verbatim>\<open>dldu\<close> adds there).
\<close>

definition cost_with_initial_weight :: "ErgodicOpt \<Rightarrow> real list \<Rightarrow> real list \<Rightarrow> py_error + real" where
  "cost_with_initial_weight self X U =
     bind_res (fill_pointwise (cost_pointwise self) X U [0..<length (time self)]) (\<lambda>c.
       if c = [] then Inl IndexError
       else trapz (c[0 := c ! 0 + Quinit self * uinit self * U ! 0]) (time self))"

subsection \<open>Workspace barrier\<close>

text \<open>
  \<^verbatim>\<open>Dbarrier\<close>: an array of zeros receives \<open>2 (x - wlimit)\<close> where \<open>x > wlimit\<close> and
  \<open>2 x\<close> where \<open>x < 0\<close>.
\<close>

definition Dbarrier :: "ErgodicOpt \<Rightarrow> real list \<Rightarrow> real list" where
  "Dbarrier self xk =
     (let dbarr_cost = map (\<lambda>x. if x > wlimit self then 2 * (x - wlimit self) else 0) xk
      in map2 (\<lambda>d x. if x < 0 then 2 * x else d) dbarr_cost xk)"

subsection \<open>Linear interpolation\<close>

text \<open>
  \<^verbatim>\<open>scipy.interpolate.interp1d(x, y)\<close> with its defaults (linear, bounds checked, input
  sorted by \<open>x\<close>). Construction raises when the arrays differ in length or have fewer
  than two entries. A call outside \<open>[x[0], x[-1]]\<close> raises; inside, the value lies on
  the segment between the neighbours found by \<^verbatim>\<open>searchsorted\<close>, the index clipped to
  \<open>1 .. len(x) - 1\<close>.
\<close>

definition searchsorted :: "real list \<Rightarrow> real \<Rightarrow> nat" where
  "searchsorted xs v = length (takeWhile (\<lambda>a. a < v) xs)"

definition interp_hi :: "real list \<Rightarrow> real \<Rightarrow> nat" where
  "interp_hi xs x_new = min (max (searchsorted xs x_new) 1) (length xs - 1)"

definition linear_interp :: "real list \<Rightarrow> real list \<Rightarrow> real \<Rightarrow> real" where
  "linear_interp xs ys x_new =
     (let hi = interp_hi xs x_new;
          lo = hi - 1;
          slope = (ys ! hi - ys ! lo) / (xs ! hi - xs ! lo)
      in slope * (x_new - xs ! lo) + ys ! lo)"

definition interp1d_call :: "real list \<Rightarrow> real list \<Rightarrow> real \<Rightarrow> py_error + real" where
  "interp1d_call xs ys x_new =
     (if x_new < hd xs \<or> last xs < x_new then Inl ValueError
      else if xs ! interp_hi xs x_new = xs ! (interp_hi xs x_new - 1) then Inl NonFinite
      else Inr (linear_interp xs ys x_new))"

definition interp1d :: "real list \<Rightarrow> real list \<Rightarrow> py_error + (real \<Rightarrow> py_error + real)" where
  "interp1d x y =
     (if length x \<noteq> length y \<or> length x < 2 then Inl ValueError
      else let xy = sort_key fst (zip x y)
           in Inr (interp1d_call (map fst xy) (map snd xy)))"

section \<open>The worker loop\<close>

text \<open>
  \<^verbatim>\<open>QueueWorker\<close> loops forever around one \<^verbatim>\<open>try\<close> block: fetch a job with a timeout,
  run it. What one pass of the loop meets is an \<open>attempt\<close>: the fetch raises, or it
  returns a job whose execution completes or raises. \<^verbatim>\<open>except Empty\<close> returns; the
  handler \<^verbatim>\<open>except Exception: raise\<close> lets every other exception out. The worker is run
  against the list of attempts it meets; when the list is used up and the loop has not
  ended, it is still running and the result is \<open>None\<close>.
\<close>

datatype py_exception = Empty | FloatingPointError | OtherException string

datatype attempt = GetRaises py_exception | JobCompletes | JobRaises py_exception

datatype outcome = Returned | Raised py_exception

fun QueueWorker :: "attempt list \<Rightarrow> outcome option" where
  "QueueWorker [] = None"
| "QueueWorker (JobCompletes # rest) = QueueWorker rest"
| "QueueWorker (GetRaises e # rest) = (if e = Empty then Some Returned else Some (Raised e))"
| "QueueWorker (JobRaises e # rest) = (if e = Empty then Some Returned else Some (Raised e))"

section \<open>Integration, gain, simulation and projection\<close>

subsection \<open>The integrator\<close>

text \<open>
  Modelled from the spec: \<^verbatim>\<open>self.odeIntegrator\<close> calls \<^verbatim>\<open>scipy.integrate.solve_ivp\<close>, which
  is not among the sources. The specification describes it as configured: a fixed-step
  explicit Runge--Kutta integrator of order 2--3 whose step is the grid spacing and whose
  output is sampled exactly at the grid points. One step is the three-stage scheme of
  \<^verbatim>\<open>RK23\<close> (Bogacki--Shampine), together with the evaluation of the right-hand side at the
  end of the step that the scheme reuses as the first stage of the next one; a
  right-hand side that raises ends the integration.
\<close>

definition rk23_step ::
  "(real \<Rightarrow> real \<Rightarrow> py_error + real) \<Rightarrow> real \<Rightarrow> real \<Rightarrow> real \<Rightarrow> py_error + real" where
  "rk23_step f t y h =
     bind_res (f t y) (\<lambda>k1.
     bind_res (f (t + h / 2) (y + h * (k1 / 2))) (\<lambda>k2.
     bind_res (f (t + 3 * h / 4) (y + h * (3 * k2 / 4))) (\<lambda>k3.
       let y_new = y + h * (2 * k1 / 9 + k2 / 3 + 4 * k3 / 9)
       in bind_res (f (t + h) y_new) (\<lambda>k4. Inr y_new))))"

fun ode_steps ::
  "(real \<Rightarrow> real \<Rightarrow> py_error + real) \<Rightarrow> real \<Rightarrow> real \<Rightarrow> real list \<Rightarrow> py_error + real list" where
  "ode_steps f t y [] = Inr []"
| "ode_steps f t y (t' # ts) =
     bind_res (rk23_step f t y (t' - t)) (\<lambda>y'.
     bind_res (ode_steps f t' y' ts) (\<lambda>ys. Inr (y' # ys)))"

definition odeIntegrator ::
  "ErgodicOpt \<Rightarrow> (real \<Rightarrow> real \<Rightarrow> py_error + real) \<Rightarrow> real \<Rightarrow> py_error + real list" where
  "odeIntegrator self f y0 =
     (case time self of
        [] \<Rightarrow> Inl IndexError
      | t0 # ts \<Rightarrow> bind_res (ode_steps f t0 y0 ts) (\<lambda>ys. Inr (y0 # ys)))"

subsection \<open>Linearisation and \<^verbatim>\<open>update_traj\<close>\<close>

text \<open>
  \<^verbatim>\<open>dfdx\<close> and \<^verbatim>\<open>dfdu\<close> of the single integrator: the constant arrays \<open>0\<close> and \<open>1\<close> on
  the grid, stored in \<^verbatim>\<open>A_current\<close> and \<^verbatim>\<open>B_current\<close>.
\<close>

definition dfdx :: "ErgodicOpt \<Rightarrow> real list \<times> ErgodicOpt" where
  "dfdx self =
     (let dfdxl = map (\<lambda>tindex. 0) [0..<length (time self)]
      in (dfdxl, self\<lparr>A_current := Some dfdxl\<rparr>))"

definition dfdu :: "ErgodicOpt \<Rightarrow> real list \<times> ErgodicOpt" where
  "dfdu self =
     (let dfdul = map (\<lambda>tindex. 1) [0..<length (time self)]
      in (dfdul, self\<lparr>B_current := Some dfdul\<rparr>))"

text \<open>
  \<^verbatim>\<open>ckeval\<close>: the realised coefficients. One pass of its loop computes
  \<^verbatim>\<open>1.0 / (self.hk[index] * T)\<close> with \<^verbatim>\<open>T = time[-1]\<close>, multiplies it with the cosines of
  the trajectory and integrates over the time grid.
\<close>

definition ck_entry :: "ErgodicOpt \<Rightarrow> real list \<Rightarrow> nat \<Rightarrow> py_error + real" where
  "ck_entry self W index =
     (if length (hk self) \<le> index then Inl IndexError
      else if hk self ! index * last (time self) = 0 then Inl NonFinite
      else let ck_interior = 1 / (hk self ! index * last (time self))
           in if length (klist self) \<le> index then Inl IndexError
              else let basis_part = map (\<lambda>w. cos (klist self ! index * w)) W
                   in trapz (map (\<lambda>b. ck_interior * b) basis_part) (time self))"

fun ck_loop :: "ErgodicOpt \<Rightarrow> real list \<Rightarrow> nat list \<Rightarrow> py_error + real list" where
  "ck_loop self W [] = Inr []"
| "ck_loop self W (index # rest) =
     bind_res (ck_entry self W index) (\<lambda>v.
     bind_res (ck_loop self W rest) (\<lambda>vs. Inr (v # vs)))"

definition ckeval :: "ErgodicOpt \<Rightarrow> py_error + ErgodicOpt" where
  "ckeval self =
     (case X_current self of None \<Rightarrow> Inl AttributeError | Some X \<Rightarrow>
        if time self = [] then Inl IndexError
        else bind_res (ck_loop self X [0..<nat (Nfourier self)]) (\<lambda>c.
               Inr (self\<lparr>ck := Some c\<rparr>)))"

text \<open>
  Elementwise division of arrays; a zero divisor that meets an entry leaves no finite
  result.
\<close>

definition np_divide :: "real list \<Rightarrow> real list \<Rightarrow> py_error + real list" where
  "np_divide xs ys =
     bind_res (np_broadcast (\<lambda>a b. a / b) xs ys) (\<lambda>r.
       if r \<noteq> [] \<and> 0 \<in> set ys then Inl NonFinite else Inr r)"

text \<open>
  \<^verbatim>\<open>np.sum(np.array(ak), axis=0)\<close> followed by \<^verbatim>\<open>reshape(summed_ak.size, 1)\<close>: the sum of
  the rows; of no rows at all, the single entry \<open>0\<close>.
\<close>

fun column_sums :: "real list list \<Rightarrow> real list" where
  "column_sums [] = [0]"
| "column_sums [r] = r"
| "column_sums (r # rs) = map2 (+) r (column_sums rs)"

text \<open>
  \<^verbatim>\<open>akeval\<close>: the gradient of the ergodic metric with respect to the state samples,
  \<^verbatim>\<open>outerchain = 2.0 * Lambdak * (ck - uk) / (hk * T)\<close> times the derivative of each
  basis function, summed over the modes.
\<close>

fun ak_terms :: "ErgodicOpt \<Rightarrow> real list \<Rightarrow> real list \<Rightarrow> nat list \<Rightarrow> py_error + real list list" where
  "ak_terms self outerchain xs [] = Inr []"
| "ak_terms self outerchain xs (index # rest) =
     (if length outerchain \<le> index \<or> length (klist self) \<le> index then Inl IndexError
      else let term = outerchain ! index;
               basis_part = map (\<lambda>x. - klist self ! index * sin (klist self ! index * x)) xs
           in bind_res (ak_terms self outerchain xs rest) (\<lambda>ts.
                Inr (map (\<lambda>b. term * b) basis_part # ts)))"

definition akeval :: "ErgodicOpt \<Rightarrow> py_error + (real list \<times> ErgodicOpt)" where
  "akeval self =
     (case X_current self of None \<Rightarrow> Inl AttributeError | Some X \<Rightarrow>
        if time self = [] then Inl IndexError
        else (case ck self of None \<Rightarrow> Inl AttributeError | Some c \<Rightarrow>
               (case uk self of None \<Rightarrow> Inl AttributeError | Some u \<Rightarrow>
                  bind_res (np_broadcast (-) c u) (\<lambda>d.
                  bind_res (np_broadcast (*) (map (\<lambda>l. 2 * l) (Lambdak self)) d) (\<lambda>num.
                  bind_res (np_divide num (map (\<lambda>h. h * last (time self)) (hk self))) (\<lambda>outerchain.
                  bind_res (ak_terms self outerchain X [0..<nat (Nfourier self)]) (\<lambda>terms.
                    let summed_ak = column_sums terms
                    in Inr (summed_ak, self\<lparr>ak := Some summed_ak\<rparr>))))))))"

text \<open>
  \<^verbatim>\<open>ErgodicOpt.dldx\<close>: \<^verbatim>\<open>self.ergcost * self.ak + self.barrcost * self.Dbarrier(X)\<close>,
  stored in \<^verbatim>\<open>a_current\<close>.
\<close>

definition dldx :: "ErgodicOpt \<Rightarrow> py_error + (real list \<times> ErgodicOpt)" where
  "dldx self =
     (case X_current self of None \<Rightarrow> Inl AttributeError | Some X \<Rightarrow>
        (case ak self of None \<Rightarrow> Inl AttributeError | Some g \<Rightarrow>
           bind_res (np_broadcast (+) (map (\<lambda>v. ergcost self * v) g)
                       (map (\<lambda>v. barrcost self * v) (Dbarrier self X))) (\<lambda>a.
             Inr (a, self\<lparr>a_current := Some a\<rparr>))))"

text \<open>
  \<^verbatim>\<open>ErgodicOpt.update_traj\<close>: store the trajectory, recompute \<^verbatim>\<open>ck\<close> and \<^verbatim>\<open>ak\<close>,
  linearise, and rebuild the four interpolants over the time grid.
\<close>

definition update_traj :: "ErgodicOpt \<Rightarrow> real list \<Rightarrow> real list \<Rightarrow> py_error + ErgodicOpt" where
  "update_traj self X U =
     bind_res (ckeval (self\<lparr>X_current := Some X, U_current := Some U\<rparr>)) (\<lambda>self1.
     bind_res (akeval self1) (\<lambda>(g, self2).
       let (A, self3) = dfdx self2;
           (B, self4) = dfdu self3
       in bind_res (dldx self4) (\<lambda>(a, self5).
          bind_res (dldu self5) (\<lambda>(b, self6).
          bind_res (interp1d (time self6) A) (\<lambda>Ai.
          bind_res (interp1d (time self6) B) (\<lambda>Bi.
          bind_res (interp1d (time self6) a) (\<lambda>ai.
          bind_res (interp1d (time self6) b) (\<lambda>bi.
            Inr (self6\<lparr>A_interp := Some Ai, B_interp := Some Bi,
                        a_interp := Some ai, b_interp := Some bi\<rparr>)))))))))"

subsection \<open>The Riccati gain\<close>

text \<open>
  \<^verbatim>\<open>Psol\<close> hands \<^verbatim>\<open>peqns\<close> with the stored interpolants to the integrator, starting from
  the one-entry array \<^verbatim>\<open>P1 = [1.0]\<close>, and returns the samples as they come.
\<close>

definition Psol :: "ErgodicOpt \<Rightarrow> real list \<Rightarrow> real list \<Rightarrow> py_error + real list" where
  "Psol self X U =
     (case A_interp self of None \<Rightarrow> Inl AttributeError | Some Ai \<Rightarrow>
        (case B_interp self of None \<Rightarrow> Inl AttributeError | Some Bi \<Rightarrow>
           odeIntegrator self (\<lambda>t y. peqns self t y Ai Bi (Rn self) (Qn self)) 1))"



text \<open>
  The gain as the specification words the convention: the right-hand side is evaluated
  in the substituted variable \<open>\<tau> = T - t\<close>, integrated from the terminal value, and the
  samples are reversed.
\<close>

definition peqns_reversed ::
  "ErgodicOpt \<Rightarrow> real \<Rightarrow> real \<Rightarrow> (real \<Rightarrow> py_error + real) \<Rightarrow> (real \<Rightarrow> py_error + real)
     \<Rightarrow> real \<Rightarrow> real \<Rightarrow> py_error + real" where
  "peqns_reversed self tau pp Al Bl Rn' Qn' =
     bind_res (outside_horizon self tau) (\<lambda>out.
       if out then Inr 0
       else peqns self (last (time self) - tau) pp Al Bl Rn' Qn')"

definition Psol_time_reversed :: "ErgodicOpt \<Rightarrow> py_error + real list" where
  "Psol_time_reversed self =
     (case A_interp self of None \<Rightarrow> Inl AttributeError | Some Ai \<Rightarrow>
        (case B_interp self of None \<Rightarrow> Inl AttributeError | Some Bi \<Rightarrow>
           bind_res (odeIntegrator self (\<lambda>tau y. peqns_reversed self tau y Ai Bi (Rn self) (Qn self))
                       (P1 self))
             (\<lambda>soln. Inr (rev soln))))"

subsection \<open>Simulation and projection\<close>




subsection \<open>An instance on a fine grid\<close>



subsection \<open>An instance away from the rest point of the gain equation\<close>

text \<open>
  The optimizer on the two-point grid \<open>0, 1\<close> with target coefficients zero and the
  attribute \<^verbatim>\<open>Qn\<close> set to \<open>2\<close>, and the state it is in after \<^verbatim>\<open>update_traj\<close> on the zero
  trajectory.
\<close>

definition opt_Qn2_example :: ErgodicOpt where
  "opt_Qn2_example = opt_example\<lparr>time := [0, 1], odeDeltaT := 1, Qn := 2, uk := Some [0, 0, 0]\<rparr>"

definition opt_Qn2_ready :: ErgodicOpt where
  "opt_Qn2_ready =
     (case update_traj opt_Qn2_example [0, 0] [0, 0] of
        Inr self' \<Rightarrow> self' | Inl e \<Rightarrow> opt_Qn2_example)"

section \<open>float64 arithmetic\<close>

text \<open>
  The functions of this section are read with the arithmetic of float64, because what is
  stated about them is the exact value they return. An array is the list of the real
  numbers that its float64 entries stand for. Every operation computes the real result
  and rounds it to the nearest float64, a tie going to the even significand: a float64 is
  \<open>m \<cdot> 2\<^sup>e\<close> with \<open>\<bar>m\<bar> < 2\<^sup>5\<^sup>3\<close> and \<open>e \<ge> -1074\<close>, so a real \<open>x\<close> is rounded on the grid
  of spacing \<open>2\<^sup>e\<close> with \<open>e = max (\<lfloor>log\<^sub>2 \<bar>x\<bar>\<rfloor> - 52) (-1074)\<close>. A result of magnitude
  \<open>2\<^sup>1\<^sup>0\<^sup>2\<^sup>4\<close> or more is \<^verbatim>\<open>inf\<close> in numpy; the modelled run ends with \<open>NonFinite\<close>.
\<close>

definition round_half_even :: "real \<Rightarrow> int" where
  "round_half_even x =
     (let n = \<lfloor>x\<rfloor>; r = x - of_int n
      in if r < 1/2 then n else if 1/2 < r then n + 1 else if even n then n else n + 1)"

definition f64_exponent :: "real \<Rightarrow> int" where
  "f64_exponent x = max (\<lfloor>log 2 \<bar>x\<bar>\<rfloor> - 52) (- 1074)"

definition f64_round :: "real \<Rightarrow> real" where
  "f64_round x =
     (if x = 0 then 0
      else of_int (round_half_even (x / 2 powr of_int (f64_exponent x))) * 2 powr of_int (f64_exponent x))"

definition f64 :: "real \<Rightarrow> py_error + real" where
  "f64 x = (if 2 ^ 1024 \<le> \<bar>f64_round x\<bar> then Inl NonFinite else Inr (f64_round x))"

text \<open>
  \<^verbatim>\<open>np.sum\<close> (\<^verbatim>\<open>np.add.reduce\<close>) adds the entries of an array in an order that numpy fixes
  from the length of the array: in index order for a short array, in blocks and
  pairwise for a long one. Every addition rounds, so the order matters for the value.
  The order is a parameter of the model: for each length a summation plan, a tree of
  additions whose leaves are the indices of the array, each occurring once.
  \<open>index_order\<close> adds in index order.
\<close>

datatype sum_plan = Term nat | Plus sum_plan sum_plan

fun plan_terms :: "sum_plan \<Rightarrow> nat list" where
  "plan_terms (Term i) = [i]"
| "plan_terms (Plus p q) = plan_terms p @ plan_terms q"

fun plan_sum :: "sum_plan \<Rightarrow> real list \<Rightarrow> py_error + real" where
  "plan_sum (Term i) xs = (if i < length xs then Inr (xs ! i) else Inl IndexError)"
| "plan_sum (Plus p q) xs =
     bind_res (plan_sum p xs) (\<lambda>a. bind_res (plan_sum q xs) (\<lambda>b. f64 (a + b)))"

definition summation_order :: "(nat \<Rightarrow> sum_plan) \<Rightarrow> bool" where
  "summation_order order =
     (\<forall>n>0. distinct (plan_terms (order n)) \<and> set (plan_terms (order n)) = {..<n})"

definition np_sum64 :: "(nat \<Rightarrow> sum_plan) \<Rightarrow> real list \<Rightarrow> py_error + real" where
  "np_sum64 order xs = (if xs = [] then Inr 0 else plan_sum (order (length xs)) xs)"

fun index_plan :: "nat \<Rightarrow> sum_plan" where
  "index_plan 0 = Term 0"
| "index_plan (Suc n) = Plus (index_plan n) (Term (Suc n))"

definition index_order :: "nat \<Rightarrow> sum_plan" where
  "index_order n = index_plan (n - 1)"

text \<open>
  An operation applied to every entry of an array, and the elementwise binary operation
  of two arrays with every result rounded.
\<close>

fun map_res :: "('a \<Rightarrow> py_error + 'b) \<Rightarrow> 'a list \<Rightarrow> py_error + 'b list" where
  "map_res f [] = Inr []"
| "map_res f (x # xs) = bind_res (f x) (\<lambda>v. bind_res (map_res f xs) (\<lambda>vs. Inr (v # vs)))"

definition np_op64 :: "(real \<Rightarrow> real \<Rightarrow> real) \<Rightarrow> real list \<Rightarrow> real list \<Rightarrow> py_error + real list" where
  "np_op64 f xs ys = bind_res (np_broadcast f xs ys) (map_res f64)"

text \<open>
  \<^verbatim>\<open>trapz(y, x)\<close>: \<^verbatim>\<open>d = diff(x)\<close>, then \<^verbatim>\<open>(d * (y[1:] + y[:-1]) / 2.0).sum()\<close>, every
  operation rounded.
\<close>

definition trapz64 :: "(nat \<Rightarrow> sum_plan) \<Rightarrow> real list \<Rightarrow> real list \<Rightarrow> py_error + real" where
  "trapz64 order y x =
     bind_res (map_res f64 (np_diff x)) (\<lambda>d.
     bind_res (np_op64 (+) (tl y) (butlast y)) (\<lambda>s.
     bind_res (np_op64 (*) d s) (\<lambda>ds.
     bind_res (map_res (\<lambda>v. f64 (v / 2)) ds) (\<lambda>hs.
       np_sum64 order hs))))"



subsection \<open>The ergodic metric\<close>



subsection \<open>The workspace barrier\<close>

text \<open>
  \<^verbatim>\<open>barrier\<close>: an array of zeros receives \<^verbatim>\<open>np.square(x - wlimit)\<close> where \<open>x > wlimit\<close>,
  then \<^verbatim>\<open>np.square(x)\<close> is added where \<open>x < 0\<close>; the array is integrated over the time
  grid.
\<close>

definition barrier :: "(nat \<Rightarrow> sum_plan) \<Rightarrow> ErgodicOpt \<Rightarrow> real list \<Rightarrow> py_error + real" where
  "barrier order self xk =
     bind_res (map_res (\<lambda>x. if x > wlimit self
                              then bind_res (f64 (x - wlimit self)) (\<lambda>d. f64 (d * d))
                              else Inr 0) xk) (\<lambda>barr_cost.
     bind_res (map_res (\<lambda>(b, x). if x < 0
                              then bind_res (f64 (x * x)) (\<lambda>q. f64 (b + q))
                              else Inr b) (zip barr_cost xk)) (\<lambda>barr_cost.
       trapz64 order barr_cost (time self)))"

subsection \<open>Trajectory normalisation\<close>



subsection \<open>The target density\<close>

text \<open>Calling an interpolant on an array of query points: the first failure raises.\<close>

fun interp_array :: "(real \<Rightarrow> py_error + real) \<Rightarrow> real list \<Rightarrow> py_error + real list" where
  "interp_array f [] = Inr []"
| "interp_array f (x # xs) =
     bind_res (f x) (\<lambda>v. bind_res (interp_array f xs) (\<lambda>vs. Inr (v # vs)))"

text \<open>
  An in-place operation (\<^verbatim>\<open>a *= b\<close>) keeps the shape of its left operand: only the right
  one may be stretched.
\<close>

definition np_inplace :: "(real \<Rightarrow> real \<Rightarrow> real) \<Rightarrow> real list \<Rightarrow> real list \<Rightarrow> py_error + real list" where
  "np_inplace f xs ys =
     (if length xs = length ys then Inr (map2 f xs ys)
      else if length ys = 1 then Inr (map (\<lambda>x. f x (hd ys)) xs)
      else Inl ValueError)"

text \<open>
  \<^verbatim>\<open>normalize_pdf\<close>: \<^verbatim>\<open>self.pdf /= np.sum(self.pdf) / np.product(self.pdf.shape)\<close>, the
  sum, its quotient by the number of entries and the quotient of every entry by the
  result rounded. Dividing the entries by a zero average leaves no finite values; an
  empty array stays as it is.
\<close>

definition normalize_pdf :: "(nat \<Rightarrow> sum_plan) \<Rightarrow> ErgodicOpt \<Rightarrow> py_error + ErgodicOpt" where
  "normalize_pdf order self =
     (case pdf self of None \<Rightarrow> Inl AttributeError | Some p \<Rightarrow>
        if p = [] then Inr self
        else bind_res (np_sum64 order p) (\<lambda>sm.
             bind_res (f64 (sm / real (length p))) (\<lambda>d.
               if d = 0 then Inl NonFinite
               else bind_res (map_res (\<lambda>v. f64 (v / d)) p) (\<lambda>q.
                      Inr (self\<lparr>pdf := Some q\<rparr>)))))"

text \<open>
  \<^verbatim>\<open>calculate_uk\<close>, one pass of the loop over \<^verbatim>\<open>index\<close>: \<^verbatim>\<open>pdf / self.hk[index]\<close>, times
  \<^verbatim>\<open>self.wlimit / self.res * basis_part\<close>, summed. The coefficients, like the resampling
  of the density before them, are read in exact arithmetic.
\<close>

definition uk_entry :: "ErgodicOpt \<Rightarrow> real list \<Rightarrow> nat \<Rightarrow> py_error + real" where
  "uk_entry self p index =
     (if length (hk self) \<le> index then Inl IndexError
      else if p \<noteq> [] \<and> hk self ! index = 0 then Inl NonFinite
      else let uk_interior = map (\<lambda>v. v / hk self ! index) p
           in if length (klist self) \<le> index then Inl IndexError
              else let basis_part = map (\<lambda>x. cos (klist self ! index * x)) (xlist self)
                   in if res self = 0 then Inl ZeroDivisionError
                      else bind_res (np_inplace (*) uk_interior
                                       (map (\<lambda>b. wlimit self / res self * b) basis_part))
                             (\<lambda>w. Inr (np_sum w)))"

fun uk_loop :: "ErgodicOpt \<Rightarrow> real list \<Rightarrow> nat list \<Rightarrow> py_error + real list" where
  "uk_loop self p [] = Inr []"
| "uk_loop self p (index # rest) =
     bind_res (uk_entry self p index) (\<lambda>v.
     bind_res (uk_loop self p rest) (\<lambda>vs. Inr (v # vs)))"

definition calculate_uk :: "ErgodicOpt \<Rightarrow> real list \<Rightarrow> py_error + ErgodicOpt" where
  "calculate_uk self p =
     bind_res (uk_loop self p [0..<nat (Nfourier self)]) (\<lambda>u. Inr (self\<lparr>uk := Some u\<rparr>))"

definition set_pdf :: "(nat \<Rightarrow> sum_plan) \<Rightarrow> ErgodicOpt \<Rightarrow> real list \<Rightarrow> py_error + ErgodicOpt" where
  "set_pdf order self pdf0 =
     bind_res (interp1d (eidTime self) pdf0) (\<lambda>pdfInterp.
     bind_res (interp_array pdfInterp (xlist self)) (\<lambda>p.
     bind_res (normalize_pdf order (self\<lparr>pdf := Some p\<rparr>)) (\<lambda>self1.
       case pdf self1 of None \<Rightarrow> Inl AttributeError | Some p1 \<Rightarrow> calculate_uk self1 p1)))"

section \<open>The spectral weights\<close>

lemma np_broadcast_same: "length xs = length ys \<Longrightarrow> np_broadcast f xs ys = Inr (map2 f xs ys)"
  by (simp add: np_broadcast_def)

lemma Lambdak_init_length: "length (Lambdak_init d n) = n"
  by (simp add: Lambdak_init_def Let_def)

lemma Lambdak_init_nth: "k < n \<Longrightarrow> Lambdak_init 1 n ! k = 1 / (1 + (real k)\<^sup>2)"
proof -
  assume "k < n"
  have "0 \<le> 1 + (real k)\<^sup>2" by (simp add: add_nonneg_nonneg)
  then have "(1 + (real k)\<^sup>2) powr 1 = 1 + (real k)\<^sup>2" by simp
  with \<open>k < n\<close> show ?thesis by (simp add: Lambdak_init_def Let_def)
qed

lemma Lambdak_init_pos: "k < n \<Longrightarrow> 0 < Lambdak_init 1 n ! k"
proof -
  assume "k < n"
  have "0 < 1 + (real k)\<^sup>2" by (simp add: add_pos_nonneg)
  then show ?thesis unfolding Lambdak_init_nth [OF \<open>k < n\<close>] by simp
qed

lemma init_fields:
  assumes "ErgodicOpt_init nx0 nu0 ergParam uinit0 quad = Inr self"
  shows "Lambdak self = Lambdak_init 1 (nat (Nfourier self))" "dimw self = 1" "wlimit self = 1"
    "time self = ergParam_time ergParam" "2 \<le> length (time self)" "0 \<le> Nfourier self"
    "nx self = nx0" "nu self = nu0" "R self = wControl ergParam" "Quinit self = wInitCtrl ergParam"
    "uinit self = uinit0" "Nfourier self = nFourier ergParam"
  using assms
  by (auto simp: ErgodicOpt_init_def bind_res_def split: if_splits sum.splits)

lemma init_example:
  "\<exists>self. ErgodicOpt_init 1 1 ergParam_example 1 quad_example = Inr self"
  by (simp add: ErgodicOpt_init_def ergParam_example_def bind_res_def np_linspace_def)

lemma init_example_fields:
  assumes "ErgodicOpt_init 1 1 ergParam_example 1 quad_example = Inr self"
  shows "time self = [0, 1/2, 1]" "R self = 1" "Quinit self = 1" "uinit self = 1"
    "nu self = 1" "nx self = 1" "wlimit self = 1" "Nfourier self = 3"
  using init_fields [OF assms] by (simp_all add: ergParam_example_def)

text \<open>
  Claim C7. The constructor sets \<open>Lambdak[k] = (1 + k\<^sup>2)\<close> to the power \<open>-(dimw + 1)/2\<close>, which
  for the workspace dimension \<open>dimw = 1\<close> is \<open>1 / (1 + k\<^sup>2)\<close>; every weight is strictly
  positive and the weights strictly decrease with the mode number \<open>k\<close>.
\<close>

theorem Lambdak_positive_decreasing:
  assumes "ErgodicOpt_init nx0 nu0 ergParam uinit0 quad = Inr self"
  shows "length (Lambdak self) = nat (Nfourier self) \<and>
         (\<forall>k<nat (Nfourier self).
            Lambdak self ! k = (1 + (real k)\<^sup>2) powr (- ((real (dimw self) + 1) / 2)) \<and>
            Lambdak self ! k = 1 / (1 + (real k)\<^sup>2) \<and> 0 < Lambdak self ! k) \<and>
         (\<forall>j k. j < k \<and> k < nat (Nfourier self) \<longrightarrow> Lambdak self ! k < Lambdak self ! j)"
proof -
  let ?n = "nat (Nfourier self)"
  have L: "Lambdak self = Lambdak_init 1 ?n" and d: "dimw self = 1"
    using init_fields [OF assms] by simp_all
  have len: "length (Lambdak self) = ?n"
    by (simp add: L Lambdak_init_length)
  have val: "Lambdak self ! k = 1 / (1 + (real k)\<^sup>2)" if "k < ?n" for k
    unfolding L by (rule Lambdak_init_nth [OF that])
  have pw: "(1 + (real k)\<^sup>2) powr (- ((real (dimw self) + 1) / 2)) = 1 / (1 + (real k)\<^sup>2)" for k
  proof -
    have "0 \<le> 1 + (real k)\<^sup>2" by (simp add: add_nonneg_nonneg)
    then show ?thesis by (simp add: d powr_minus inverse_eq_divide)
  qed
  have pos: "0 < Lambdak self ! k" if "k < ?n" for k
    unfolding L by (rule Lambdak_init_pos [OF that])
  have dec: "Lambdak self ! k < Lambdak self ! j" if "j < k" "k < ?n" for j k
  proof -
    have "(real j)\<^sup>2 < (real k)\<^sup>2"
      using that(1) by (simp add: power_strict_mono)
    moreover have "0 < 1 + (real j)\<^sup>2" by (simp add: add_pos_nonneg)
    ultimately have "1 / (1 + (real k)\<^sup>2) < 1 / (1 + (real j)\<^sup>2)"
      by (simp add: frac_less2)
    then show ?thesis using that by (simp add: val)
  qed
  show ?thesis
  proof (intro conjI allI impI)
    show "length (Lambdak self) = ?n" by (rule len)
  next
    fix k assume k: "k < ?n"
    show "Lambdak self ! k = (1 + (real k)\<^sup>2) powr (- ((real (dimw self) + 1) / 2))"
      unfolding pw by (rule val [OF k])
    show "Lambdak self ! k = 1 / (1 + (real k)\<^sup>2)" by (rule val [OF k])
    show "0 < Lambdak self ! k" by (rule pos [OF k])
  next
    fix j k assume "j < k \<and> k < ?n"
    then show "Lambdak self ! k < Lambdak self ! j" using dec by blast
  qed
qed

theorem Lambdak_positive_decreasing_witness:
  "\<exists>self. ErgodicOpt_init 1 1 ergParam_example 1 quad_example = Inr self \<and>
     length (Lambdak self) = 3 \<and> Lambdak self ! 2 = 1 / 5 \<and> 0 < Lambdak self ! 2 \<and>
     Lambdak self ! 2 < Lambdak self ! 1"
proof -
  obtain self where s: "ErgodicOpt_init 1 1 ergParam_example 1 quad_example = Inr self"
    using init_example by blast
  have n: "nat (Nfourier self) = 3"
    using s by (auto simp: ErgodicOpt_init_def ergParam_example_def bind_res_def np_linspace_def)
  note T = Lambdak_positive_decreasing [OF s]
  have k2: "(2::nat) < nat (Nfourier self)" and k12: "(1::nat) < 2 \<and> 2 < nat (Nfourier self)"
    by (simp_all add: n)
  have len: "length (Lambdak self) = 3"
    using T [THEN conjunct1] n by simp
  have v: "Lambdak self ! 2 = 1 / (1 + (real 2)\<^sup>2)" and p: "0 < Lambdak self ! 2"
    using T [THEN conjunct2, THEN conjunct1, rule_format, OF k2] by simp_all
  have d: "Lambdak self ! 2 < Lambdak self ! 1"
    using T [THEN conjunct2, THEN conjunct2, rule_format, OF k12] .
  have "Lambdak self ! 2 = 1 / 5" using v by simp
  with s len p d show ?thesis by (intro exI conjI)
qed

section \<open>Trapezoid quadrature and the filling loop\<close>

lemma np_diff_length: "length (np_diff x) = length x - 1"
  by (induction x rule: np_diff.induct) simp_all

lemma np_diff_nth: "Suc i < length x \<Longrightarrow> np_diff x ! i = x ! Suc i - x ! i"
proof (induction x arbitrary: i rule: np_diff.induct)
  case (1 a b xs)
  then show ?case by (cases i) simp_all
qed simp_all

lemma trapz_sum:
  assumes "length y = length x"
  shows "trapz y x = Inr (\<Sum>i<length x - 1. (x ! Suc i - x ! i) * (y ! Suc i + y ! i) / 2)"
proof -
  let ?s = "map2 (+) (tl y) (butlast y)"
  let ?ds = "map2 (*) (np_diff x) ?s"
  have s: "np_broadcast (+) (tl y) (butlast y) = Inr ?s"
    by (rule np_broadcast_same) simp
  have ls: "length ?s = length x - 1" using assms by simp
  have ds: "np_broadcast (*) (np_diff x) ?s = Inr ?ds"
    by (rule np_broadcast_same) (simp add: np_diff_length assms)
  have lds: "length ?ds = length x - 1" using assms by (simp add: np_diff_length)
  have nth: "map (\<lambda>v. v / 2) ?ds ! i = (x ! Suc i - x ! i) * (y ! Suc i + y ! i) / 2"
    if "i < length x - 1" for i
  proof -
    have i: "Suc i < length x" "i < length (tl y)" "i < length (butlast y)" "i < length (np_diff x)"
      using that assms by (simp_all add: np_diff_length)
    have "?s ! i = y ! Suc i + y ! i"
      using i by (simp add: nth_tl nth_butlast)
    then show ?thesis using i lds that by (simp add: np_diff_nth)
  qed
  have "np_sum (map (\<lambda>v. v / 2) ?ds) = (\<Sum>i<length x - 1. map (\<lambda>v. v / 2) ?ds ! i)"
    unfolding np_sum_def sum_list_sum_nth using lds by (simp add: atLeast0LessThan)
  also have "\<dots> = (\<Sum>i<length x - 1. (x ! Suc i - x ! i) * (y ! Suc i + y ! i) / 2)"
    by (intro sum.cong refl nth) simp
  finally have "np_sum (map (\<lambda>v. v / 2) ?ds) = (\<Sum>i<length x - 1. (x ! Suc i - x ! i) * (y ! Suc i + y ! i) / 2)" .
  then show ?thesis
    unfolding trapz_def s ds bind_res_def sum.case by simp
qed

lemma fill_pointwise_total:
  assumes "\<forall>i\<in>set js. i < length X \<and> i < length U" and "\<And>x u. f x u = Inr (g x u)"
  shows "fill_pointwise f X U js = Inr (map (\<lambda>i. g (X ! i) (U ! i)) js)"
  using assms(1)
proof (induction js)
  case Nil
  then show ?case by simp
next
  case (Cons j js)
  then show ?case by (simp add: assms(2) bind_res_def)
qed

lemma matmult_2: "matmult [a, b] = a * b"
  and matmult_3: "matmult [a, b, c] = a * b * c"
  and matmult_4: "matmult [a, b, c, d] = a * b * c * d"
  by (simp_all add: matmult_def)

section \<open>Right-hand sides outside the horizon\<close>

lemma outside_horizon_outside:
  "time self \<noteq> [] \<Longrightarrow> t < hd (time self) \<or> last (time self) < t \<Longrightarrow> outside_horizon self t = Inr True"
  by (auto simp: outside_horizon_def)

text \<open>
  Claim C9. Each right-hand side handed to the integrator (\<^verbatim>\<open>peqns\<close>, \<^verbatim>\<open>reqns\<close>,
  \<^verbatim>\<open>zeqns\<close>, \<^verbatim>\<open>fofx\<close>) returns zero when its time argument lies strictly outside
  \<open>[time[0], time[-1]]\<close>, whatever the interpolants would do there: they are not
  evaluated.
\<close>

theorem rhs_zero_outside_horizon:
  assumes "time self \<noteq> []" and "t < hd (time self) \<or> last (time self) < t"
  shows "peqns self t pp Al Bl rn qn = Inr 0 \<and>
         reqns self t rr Al Bl a b Ps rn qn = Inr 0 \<and>
         zeqns self t zz Al Bl a b Ps Rs rn qn = Inr 0 \<and>
         fofx self t X U = Inr 0"
  using outside_horizon_outside [OF assms]
  by (simp add: peqns_def reqns_def zeqns_def fofx_def bind_res_def)

theorem rhs_zero_outside_horizon_witness:
  "\<exists>self. ErgodicOpt_init 1 1 ergParam_example 1 quad_example = Inr self \<and>
     peqns self (3/2) 1 (\<lambda>t. Inl ValueError) (\<lambda>t. Inl ValueError) 1 1 = Inr 0 \<and>
     reqns self (3/2) 0 (\<lambda>t. Inl ValueError) (\<lambda>t. Inl ValueError) (\<lambda>t. Inl ValueError)
       (\<lambda>t. Inl ValueError) (\<lambda>t. Inl ValueError) 1 1 = Inr 0 \<and>
     zeqns self (3/2) 0 (\<lambda>t. Inl ValueError) (\<lambda>t. Inl ValueError) (\<lambda>t. Inl ValueError)
       (\<lambda>t. Inl ValueError) (\<lambda>t. Inl ValueError) (\<lambda>t. Inl ValueError) 1 1 = Inr 0 \<and>
     fofx self (3/2) 0 (\<lambda>t. Inl ValueError) = Inr 0"
proof -
  obtain self where s: "ErgodicOpt_init 1 1 ergParam_example 1 quad_example = Inr self"
    using init_example by blast
  note f = init_example_fields [OF s]
  have ne: "time self \<noteq> []" and out: "3/2 < hd (time self) \<or> last (time self) < 3/2"
    by (simp_all add: f)
  show ?thesis
    using s rhs_zero_outside_horizon [OF ne out] by (intro exI [of _ self]) simp
qed

section \<open>The control cost\<close>

lemma cost_pointwise_value: "nu self = 1 \<Longrightarrow> cost_pointwise self x u = Inr (0.5 * u * R self * u)"
  by (simp add: cost_pointwise_def matmult_3)

lemma cost_fill:
  assumes "nu self = 1" and "length (time self) \<le> length X" and "length (time self) \<le> length U"
  shows "fill_pointwise (cost_pointwise self) X U [0..<length (time self)]
       = Inr (map (\<lambda>i. 0.5 * (U ! i) * R self * (U ! i)) [0..<length (time self)])"
  using assms by (intro fill_pointwise_total cost_pointwise_value) auto

lemma cost_value:
  assumes "nu self = 1" and "length (time self) \<le> length X" and "length (time self) \<le> length U"
  shows "cost self X U = Inr (\<Sum>i<length (time self) - 1. (time self ! Suc i - time self ! i) *
           (0.5 * (U ! Suc i) * R self * (U ! Suc i) + 0.5 * (U ! i) * R self * (U ! i)) / 2)"
proof -
  let ?c = "map (\<lambda>i. 0.5 * (U ! i) * R self * (U ! i)) [0..<length (time self)]"
  have "cost self X U = trapz ?c (time self)"
    by (simp add: cost_def cost_fill [OF assms] bind_res_def)
  also have "\<dots> = Inr (\<Sum>i<length (time self) - 1. (time self ! Suc i - time self ! i) * (?c ! Suc i + ?c ! i) / 2)"
    by (rule trapz_sum) simp
  also have "(\<Sum>i<length (time self) - 1. (time self ! Suc i - time self ! i) * (?c ! Suc i + ?c ! i) / 2)
     = (\<Sum>i<length (time self) - 1. (time self ! Suc i - time self ! i) *
           (0.5 * (U ! Suc i) * R self * (U ! Suc i) + 0.5 * (U ! i) * R self * (U ! i)) / 2)"
    by (rule sum.cong) simp_all
  finally show ?thesis .
qed

lemma cost_trapz:
  assumes "nu self = 1" and "length (time self) \<le> length X" and "length (time self) \<le> length U"
  shows "cost self X U = trapz (map (\<lambda>u. 0.5 * u * R self * u) (take (length (time self)) U)) (time self)"
proof -
  have "map (\<lambda>i. 0.5 * (U ! i) * R self * (U ! i)) [0..<length (time self)]
      = map (\<lambda>u. 0.5 * u * R self * u) (take (length (time self)) U)"
    using assms(3) by (intro nth_equalityI) simp_all
  then show ?thesis
    by (simp add: cost_def cost_fill [OF assms] bind_res_def)
qed


lemma upt_3: "[0..<3] = [0, 1, 2]"
  by (simp add: eval_nat_numeral upt_rec)

lemma init_example_eq: "ErgodicOpt_init 1 1 ergParam_example 1 quad_example = Inr opt_example"
  by (simp add: ErgodicOpt_init_def ergParam_example_def opt_example_def bind_res_def
      np_linspace_def upt_3)

lemma opt_example_fields:
  "time opt_example = [0, 1/2, 1]" "R opt_example = 1" "Quinit opt_example = 1"
  "uinit opt_example = 1" "nu opt_example = 1" "nx opt_example = 1" "wlimit opt_example = 1"
  "Nfourier opt_example = 3"
  by (simp_all add: opt_example_def)

lemma sum_lessThan_2: "(\<Sum>i<(2::nat). f i) = f 0 + (f 1 :: real)"
  by (simp add: eval_nat_numeral)

text \<open>
  The cost with an initial-control term weighted by \<open>Quinit\<close> differs from what
  \<^verbatim>\<open>cost\<close> returns: on the grid \<open>0, 1/2, 1\<close> with \<open>R = Quinit = uinit = 1\<close> and the constant
  control \<open>1\<close> the code returns \<open>1/2\<close>, the weighted cost is \<open>3/4\<close>.
\<close>

theorem cost_initial_weight_counterexample:
  "cost opt_example [0, 0, 0] [1, 1, 1] \<noteq> cost_with_initial_weight opt_example [0, 0, 0] [1, 1, 1]"
proof -
  have fill: "fill_pointwise (cost_pointwise opt_example) [0, 0, 0] [1, 1, 1] [0..<length (time opt_example)]
      = Inr [1/2, 1/2, 1/2]"
    by (simp add: opt_example_fields upt_3 cost_pointwise_def matmult_3 bind_res_def)
  have c: "cost opt_example [0, 0, 0] [1, 1, 1] = Inr (1/2)"
    unfolding cost_def fill bind_res_def sum.case
    by (simp add: trapz_sum opt_example_fields sum_lessThan_2)
  have w: "cost_with_initial_weight opt_example [0, 0, 0] [1, 1, 1] = Inr (3/4)"
    unfolding cost_with_initial_weight_def fill bind_res_def sum.case
    by (simp add: trapz_sum opt_example_fields sum_lessThan_2)
  show ?thesis unfolding c w by simp
qed


lemma dldu_fill:
  assumes "nu self = 1" and "length (time self) \<le> length X" and "length (time self) \<le> length U"
  shows "fill_pointwise (dldu_pointwise self) X U [0..<length (time self)]
       = Inr (map (\<lambda>i. R self * (U ! i)) [0..<length (time self)])"
proof (rule fill_pointwise_total)
  show "\<forall>i\<in>set [0..<length (time self)]. i < length X \<and> i < length U"
    using assms(2,3) by auto
  show "dldu_pointwise self x u = Inr (R self * u)" for x u
    by (simp add: dldu_pointwise_def matmult_2 assms(1))
qed

text \<open>
  Claim C3, as amended. For trajectories covering the time grid, \<^verbatim>\<open>cost(X, U)\<close> (and hence
  \<^verbatim>\<open>eval_cost\<close>) is the trapezoid quadrature over the horizon of the quadratic control
  effort \<open>0.5\<cdot>u\<cdot>R\<cdot>u\<close> alone. It does not depend on \<open>Quinit\<close> or \<open>uinit\<close>: the
  initial-control weighting enters only the control gradient \<^verbatim>\<open>dldu\<close>, whose first entry
  is \<open>R\<cdot>U[0] + uinit\<cdot>Quinit\<close>.
\<close>

theorem cost_is_control_effort_quadrature:
  assumes "nu self = 1" and "length (time self) \<le> length X" and "length (time self) \<le> length U"
  shows "cost self X U =
           trapz (map (\<lambda>u. 0.5 * u * R self * u) (take (length (time self)) U)) (time self) \<and>
         cost self X U =
           Inr (\<Sum>i<length (time self) - 1. (time self ! Suc i - time self ! i) *
             (0.5 * (U ! Suc i) * R self * (U ! Suc i) + 0.5 * (U ! i) * R self * (U ! i)) / 2) \<and>
         cost (self\<lparr>Quinit := q, uinit := w\<rparr>) X U = cost self X U \<and>
         eval_cost (self\<lparr>X_current := Some X, U_current := Some U\<rparr>) = cost self X U \<and>
         (time self \<noteq> [] \<longrightarrow>
            (\<exists>dl self'. dldu (self\<lparr>X_current := Some X, U_current := Some U\<rparr>) = Inr (dl, self') \<and>
               dl ! 0 = R self * U ! 0 + uinit self * Quinit self))"
proof (intro conjI impI)
  show "cost self X U =
      trapz (map (\<lambda>u. 0.5 * u * R self * u) (take (length (time self)) U)) (time self)"
    by (rule cost_trapz [OF assms])
  show "cost self X U =
      Inr (\<Sum>i<length (time self) - 1. (time self ! Suc i - time self ! i) *
        (0.5 * (U ! Suc i) * R self * (U ! Suc i) + 0.5 * (U ! i) * R self * (U ! i)) / 2)"
    by (rule cost_value [OF assms])
  have "cost_pointwise (self\<lparr>Quinit := q, uinit := w\<rparr>) = cost_pointwise self"
    by (intro ext) (simp add: cost_pointwise_def)
  then show "cost (self\<lparr>Quinit := q, uinit := w\<rparr>) X U = cost self X U"
    by (simp add: cost_def)
  have "cost_pointwise (self\<lparr>X_current := Some X, U_current := Some U\<rparr>) = cost_pointwise self"
    by (intro ext) (simp add: cost_pointwise_def)
  then show "eval_cost (self\<lparr>X_current := Some X, U_current := Some U\<rparr>) = cost self X U"
    by (simp add: eval_cost_def cost_def)
  show "\<exists>dl self'. dldu (self\<lparr>X_current := Some X, U_current := Some U\<rparr>) = Inr (dl, self') \<and>
      dl ! 0 = R self * U ! 0 + uinit self * Quinit self" if ne: "time self \<noteq> []"
  proof -
    let ?s = "self\<lparr>X_current := Some X, U_current := Some U\<rparr>"
    let ?dl = "map (\<lambda>i. R self * (U ! i)) [0..<length (time self)]"
    have fill: "fill_pointwise (dldu_pointwise ?s) X U [0..<length (time ?s)] = Inr ?dl"
      using dldu_fill [of ?s X U] assms by simp
    have nonempty: "?dl \<noteq> []" using ne by simp
    have hd0: "?dl ! 0 = R self * U ! 0" using ne by (simp add: nth_map_upt)
    have "dldu ?s = Inr (?dl[0 := ?dl ! 0 + uinit self * Quinit self],
                         ?s\<lparr>b_current := Some (?dl[0 := ?dl ! 0 + uinit self * Quinit self])\<rparr>)"
      unfolding dldu_def using fill nonempty by (simp add: bind_res_def Let_def)
    moreover have "(?dl[0 := ?dl ! 0 + uinit self * Quinit self]) ! 0 = R self * U ! 0 + uinit self * Quinit self"
      using ne hd0 by simp
    ultimately show ?thesis by blast
  qed
qed

theorem cost_is_control_effort_quadrature_witness:
  "cost opt_example [0, 0, 0] [1, 1, 1] = Inr (1/2) \<and>
   cost (opt_example\<lparr>Quinit := 7, uinit := 3\<rparr>) [0, 0, 0] [1, 1, 1] = Inr (1/2) \<and>
   eval_cost (opt_example\<lparr>X_current := Some [0, 0, 0], U_current := Some [1, 1, 1]\<rparr>) = Inr (1/2) \<and>
   (\<exists>dl self'. dldu (opt_example\<lparr>X_current := Some [0, 0, 0], U_current := Some [1, 1, 1]\<rparr>) = Inr (dl, self') \<and>
      dl ! 0 = 2)"
proof -
  have a: "nu opt_example = 1" "length (time opt_example) \<le> length [0, 0, 0::real]"
    "length (time opt_example) \<le> length [1, 1, 1::real]"
    by (simp_all add: opt_example_fields)
  have ne: "time opt_example \<noteq> []" by (simp add: opt_example_fields)
  note T = cost_is_control_effort_quadrature [OF a, where q = 7 and w = 3]
  have v: "cost opt_example [0, 0, 0] [1, 1, 1] = Inr (1/2)"
    using T [THEN conjunct2, THEN conjunct1]
    by (simp add: opt_example_fields sum_lessThan_2)
  have q: "cost (opt_example\<lparr>Quinit := 7, uinit := 3\<rparr>) [0, 0, 0] [1, 1, 1] = Inr (1/2)"
    using T [THEN conjunct2, THEN conjunct2, THEN conjunct1] v by simp
  have e: "eval_cost (opt_example\<lparr>X_current := Some [0, 0, 0], U_current := Some [1, 1, 1]\<rparr>) = Inr (1/2)"
    using T [THEN conjunct2, THEN conjunct2, THEN conjunct2, THEN conjunct1] v by simp
  have d: "\<exists>dl self'. dldu (opt_example\<lparr>X_current := Some [0, 0, 0], U_current := Some [1, 1, 1]\<rparr>) = Inr (dl, self') \<and>
      dl ! 0 = 2"
    using T [THEN conjunct2, THEN conjunct2, THEN conjunct2, THEN conjunct2, rule_format, OF ne]
    by (simp add: opt_example_fields)
  show ?thesis using v q e d by (intro conjI)
qed

section \<open>Linear interpolation on a sorted grid\<close>

lemma interp1d_sorted:
  assumes "sorted_wrt (<) x" and "length y = length x" and "2 \<le> length x"
  shows "interp1d x y = Inr (interp1d_call x y)"
proof -
  have "sorted (map fst (zip x y))"
    using assms(1,2) by (simp add: strict_sorted_imp_sorted)
  then have "sort_key fst (zip x y) = zip x y"
    by (rule sort_key_id_if_sorted)
  then show ?thesis using assms(2,3) by (simp add: interp1d_def Let_def)
qed

lemma interp_hi_bounds:
  assumes "2 \<le> length xs"
  shows "1 \<le> interp_hi xs v" and "interp_hi xs v < length xs"
  using assms by (simp_all add: interp_hi_def)

lemma interp1d_call_inside:
  assumes "sorted_wrt (<) xs" and "2 \<le> length xs" and "hd xs \<le> v" and "v \<le> last xs"
  shows "interp1d_call xs ys v = Inr (linear_interp xs ys v)"
proof -
  have "interp_hi xs v - 1 < interp_hi xs v" "interp_hi xs v < length xs"
    using interp_hi_bounds [OF assms(2), of v] by simp_all
  then have "xs ! (interp_hi xs v - 1) < xs ! interp_hi xs v"
    using assms(1) by (simp add: sorted_wrt_nth_less)
  then show ?thesis using assms(3,4) by (simp add: interp1d_call_def)
qed

lemma searchsorted_nth:
  assumes "sorted_wrt (<) xs" and "j < length xs"
  shows "searchsorted xs (xs ! j) = j"
proof -
  have "takeWhile (\<lambda>a. a < xs ! j) xs = take j xs"
  proof (rule takeWhile_eq_take_P_nth)
    show "xs ! i < xs ! j" if "i < j" "i < length xs" for i
      using assms that by (simp add: sorted_wrt_nth_less)
    show "\<not> xs ! j < xs ! j" by simp
  qed
  then show ?thesis using assms(2) by (simp add: searchsorted_def)
qed

text \<open>At a grid point the interpolant returns the data given there.\<close>

lemma linear_interp_node:
  assumes "sorted_wrt (<) xs" and "2 \<le> length xs" and "j < length xs"
  shows "linear_interp xs ys (xs ! j) = ys ! j"
proof (cases "j = 0")
  case True
  have "0 < length xs" using assms(2) by linarith
  then have "searchsorted xs (xs ! 0) = 0" by (rule searchsorted_nth [OF assms(1)])
  then have "interp_hi xs (xs ! 0) = 1"
    using assms(2) by (simp add: interp_hi_def)
  then show ?thesis using True by (simp add: linear_interp_def Let_def)
next
  case False
  have hi: "interp_hi xs (xs ! j) = j"
    using assms(3) False by (simp add: interp_hi_def searchsorted_nth [OF assms(1,3)])
  have "xs ! (j - 1) < xs ! j"
    using assms(1,3) False by (simp add: sorted_wrt_nth_less)
  then show ?thesis by (simp add: linear_interp_def Let_def hi)
qed

lemma hk_example_pos: "k < length ks \<Longrightarrow> 0 < hk_init quad_example ks ! k"
proof -
  assume k: "k < length ks"
  have "0 < (1 + (cos (ks ! k))\<^sup>2) / 2"
    by (simp add: add_pos_nonneg)
  then show ?thesis using k by (simp add: hk_init_def quad_example_def)
qed

section \<open>The worker loop: how it ends\<close>

lemma QueueWorker_skip: "QueueWorker (replicate n JobCompletes @ tr) = QueueWorker tr"
  by (induction n) simp_all

lemma QueueWorker_Some_decompose:
  "QueueWorker tr = Some r \<Longrightarrow>
     \<exists>n e rest. (tr = replicate n JobCompletes @ GetRaises e # rest \<or>
                 tr = replicate n JobCompletes @ JobRaises e # rest) \<and>
                r = (if e = Empty then Returned else Raised e)"
proof (induction tr rule: QueueWorker.induct)
  case 1
  then show ?case by simp
next
  case (2 rest)
  then obtain n e rest' where
    "(rest = replicate n JobCompletes @ GetRaises e # rest' \<or>
      rest = replicate n JobCompletes @ JobRaises e # rest') \<and>
     r = (if e = Empty then Returned else Raised e)" by auto
  then have "(JobCompletes # rest = replicate (Suc n) JobCompletes @ GetRaises e # rest' \<or>
      JobCompletes # rest = replicate (Suc n) JobCompletes @ JobRaises e # rest') \<and>
     r = (if e = Empty then Returned else Raised e)" by auto
  then show ?case by blast
next
  case (3 e rest)
  then have "(GetRaises e # rest = replicate 0 JobCompletes @ GetRaises e # rest \<or>
      GetRaises e # rest = replicate 0 JobCompletes @ JobRaises e # rest) \<and>
     r = (if e = Empty then Returned else Raised e)" by (auto split: if_splits)
  then show ?case by blast
next
  case (4 e rest)
  then have "(JobRaises e # rest = replicate 0 JobCompletes @ GetRaises e # rest \<or>
      JobRaises e # rest = replicate 0 JobCompletes @ JobRaises e # rest) \<and>
     r = (if e = Empty then Returned else Raised e)" by (auto split: if_splits)
  then show ?case by blast
qed

lemma QueueWorker_None_iff: "QueueWorker tr = None \<longleftrightarrow> tr = replicate (length tr) JobCompletes"
  by (induction tr rule: QueueWorker.induct) simp_all

text \<open>
  As long as no job raises \<^verbatim>\<open>Empty\<close> itself, the worker returns normally exactly when a
  fetch times out after a run of completed jobs, and it ends with an exception \<open>e\<close>
  exactly when \<open>e\<close> is the first exception that a fetch or a job raises: nothing catches
  it, retries the job or turns it into a result.
\<close>

lemma QueueWorker_returns_on_timeout:
  assumes "JobRaises Empty \<notin> set tr"
  shows "QueueWorker tr = Some Returned \<longleftrightarrow>
           (\<exists>n rest. tr = replicate n JobCompletes @ GetRaises Empty # rest)"
proof
  assume "QueueWorker tr = Some Returned"
  from QueueWorker_Some_decompose [OF this] assms
  show "\<exists>n rest. tr = replicate n JobCompletes @ GetRaises Empty # rest"
    by (metis in_set_conv_decomp outcome.distinct(1))
next
  assume "\<exists>n rest. tr = replicate n JobCompletes @ GetRaises Empty # rest"
  then show "QueueWorker tr = Some Returned" by (auto simp: QueueWorker_skip)
qed

lemma QueueWorker_raises_first_exception:
  "QueueWorker tr = Some (Raised e) \<longleftrightarrow>
     e \<noteq> Empty \<and>
     (\<exists>n rest. tr = replicate n JobCompletes @ GetRaises e # rest \<or>
                tr = replicate n JobCompletes @ JobRaises e # rest)"
proof
  assume a: "QueueWorker tr = Some (Raised e)"
  from QueueWorker_Some_decompose [OF a]
  show "e \<noteq> Empty \<and> (\<exists>n rest. tr = replicate n JobCompletes @ GetRaises e # rest \<or>
                 tr = replicate n JobCompletes @ JobRaises e # rest)"
    by (metis outcome.distinct(1) outcome.inject)
next
  assume "e \<noteq> Empty \<and> (\<exists>n rest. tr = replicate n JobCompletes @ GetRaises e # rest \<or>
                 tr = replicate n JobCompletes @ JobRaises e # rest)"
  then show "QueueWorker tr = Some (Raised e)"
    by (auto simp: QueueWorker_skip)
qed

text \<open>
  Claim C8. The worker is to return normally only when a fetch times out, and every
  exception raised by a job is to leave it uncaught. The \<^verbatim>\<open>try\<close> block, however, encloses
  the execution of the job as well as the fetch, so the handler \<^verbatim>\<open>except Empty\<close>, whose
  message is \<^verbatim>\<open>no more work to be done\<close>, also receives an \<^verbatim>\<open>Empty\<close> raised by the job
  being executed. On the trace of one completed job followed by a job that raises
  \<^verbatim>\<open>Empty\<close> the worker returns normally: no fetch has timed out, the exception of the job
  is not re-raised, and the job is dropped. A job that raises any other exception, here
  \<^verbatim>\<open>FloatingPointError\<close>, ends the worker with that exception.
\<close>

theorem QueueWorker_swallows_Empty_of_job:
  "QueueWorker [JobCompletes, JobRaises Empty] = Some Returned \<and>
   GetRaises Empty \<notin> set [JobCompletes, JobRaises Empty] \<and>
   QueueWorker [JobCompletes, JobRaises FloatingPointError] = Some (Raised FloatingPointError) \<and>
   QueueWorker [JobCompletes, GetRaises Empty] = Some Returned"
  by simp

section \<open>The Riccati gain\<close>

subsection \<open>What \<^verbatim>\<open>update_traj\<close> leaves behind\<close>

lemma ckeval_frame:
  "ckeval self = Inr s \<Longrightarrow> \<exists>c. s = self\<lparr>ck := Some c\<rparr>"
  by (auto simp: ckeval_def bind_res_def split: option.splits if_splits sum.splits)

lemma akeval_frame:
  "akeval self = Inr (g, s) \<Longrightarrow> s = self\<lparr>ak := Some g\<rparr>"
  by (auto simp: akeval_def bind_res_def Let_def split: option.splits if_splits sum.splits)

lemma dldx_frame:
  "dldx self = Inr (a, s) \<Longrightarrow> s = self\<lparr>a_current := Some a\<rparr>"
  by (auto simp: dldx_def bind_res_def split: option.splits sum.splits)

lemma dldu_frame:
  "dldu self = Inr (b, s) \<Longrightarrow> s = self\<lparr>b_current := Some b\<rparr>"
  by (auto simp: dldu_def bind_res_def Let_def split: option.splits if_splits sum.splits)


lemma bind_res_Inr: "bind_res m f = Inr r \<Longrightarrow> \<exists>v. m = Inr v \<and> f v = Inr r"
  by (cases m) (simp_all add: bind_res_def)

lemma update_traj_parts:
  assumes "update_traj self X U = Inr self'"
  shows "\<exists>c g a b Ai Bi ai bi.
           self' = self\<lparr>X_current := Some X, U_current := Some U, ck := Some c, ak := Some g,
                     A_current := Some (map (\<lambda>i. 0) [0..<length (time self)]),
                     B_current := Some (map (\<lambda>i. 1) [0..<length (time self)]),
                     a_current := Some a, b_current := Some b,
                     A_interp := Some Ai, B_interp := Some Bi,
                     a_interp := Some ai, b_interp := Some bi\<rparr> \<and>
           interp1d (time self) (map (\<lambda>i. 0) [0..<length (time self)]) = Inr Ai \<and>
           interp1d (time self) (map (\<lambda>i. 1) [0..<length (time self)]) = Inr Bi"
proof -
  let ?s0 = "self\<lparr>X_current := Some X, U_current := Some U\<rparr>"
  let ?A = "map (\<lambda>i. 0::real) [0..<length (time self)]"
  let ?B = "map (\<lambda>i. 1::real) [0..<length (time self)]"
  from bind_res_Inr [OF assms [unfolded update_traj_def]] obtain s1 where
    c: "ckeval ?s0 = Inr s1"
    and r1: "bind_res (akeval s1) (\<lambda>(g, self2).
       let (A, self3) = dfdx self2;
           (B, self4) = dfdu self3
       in bind_res (dldx self4) (\<lambda>(a, self5).
          bind_res (dldu self5) (\<lambda>(b, self6).
          bind_res (interp1d (time self6) A) (\<lambda>Ai.
          bind_res (interp1d (time self6) B) (\<lambda>Bi.
          bind_res (interp1d (time self6) a) (\<lambda>ai.
          bind_res (interp1d (time self6) b) (\<lambda>bi.
            Inr (self6\<lparr>A_interp := Some Ai, B_interp := Some Bi,
                        a_interp := Some ai, b_interp := Some bi\<rparr>)))))))) = Inr self'"
    by blast
  from ckeval_frame [OF c] obtain cc where s1: "s1 = ?s0\<lparr>ck := Some cc\<rparr>" by blast
  from bind_res_Inr [OF r1] obtain g s2 where
    a: "akeval s1 = Inr (g, s2)"
    and r2: "(let (A, self3) = dfdx s2;
           (B, self4) = dfdu self3
       in bind_res (dldx self4) (\<lambda>(a, self5).
          bind_res (dldu self5) (\<lambda>(b, self6).
          bind_res (interp1d (time self6) A) (\<lambda>Ai.
          bind_res (interp1d (time self6) B) (\<lambda>Bi.
          bind_res (interp1d (time self6) a) (\<lambda>ai.
          bind_res (interp1d (time self6) b) (\<lambda>bi.
            Inr (self6\<lparr>A_interp := Some Ai, B_interp := Some Bi,
                        a_interp := Some ai, b_interp := Some bi\<rparr>)))))))) = Inr self'"
    by (cases rule: prod.exhaust) auto
  have s2: "s2 = s1\<lparr>ak := Some g\<rparr>" by (rule akeval_frame [OF a])
  define s4 where "s4 = s2\<lparr>A_current := Some ?A, B_current := Some ?B\<rparr>"
  have t2: "time s2 = time self" by (simp add: s2 s1)
  have r3: "bind_res (dldx s4) (\<lambda>(a, self5).
          bind_res (dldu self5) (\<lambda>(b, self6).
          bind_res (interp1d (time self6) ?A) (\<lambda>Ai.
          bind_res (interp1d (time self6) ?B) (\<lambda>Bi.
          bind_res (interp1d (time self6) a) (\<lambda>ai.
          bind_res (interp1d (time self6) b) (\<lambda>bi.
            Inr (self6\<lparr>A_interp := Some Ai, B_interp := Some Bi,
                        a_interp := Some ai, b_interp := Some bi\<rparr>))))))) = Inr self'"
    using r2 by (simp add: dfdx_def dfdu_def Let_def t2 s4_def)
  from bind_res_Inr [OF r3] obtain av s5 where
    dx: "dldx s4 = Inr (av, s5)"
    and r4: "bind_res (dldu s5) (\<lambda>(b, self6).
          bind_res (interp1d (time self6) ?A) (\<lambda>Ai.
          bind_res (interp1d (time self6) ?B) (\<lambda>Bi.
          bind_res (interp1d (time self6) av) (\<lambda>ai.
          bind_res (interp1d (time self6) b) (\<lambda>bi.
            Inr (self6\<lparr>A_interp := Some Ai, B_interp := Some Bi,
                        a_interp := Some ai, b_interp := Some bi\<rparr>)))))) = Inr self'"
    by (cases rule: prod.exhaust) auto
  have s5: "s5 = s4\<lparr>a_current := Some av\<rparr>" by (rule dldx_frame [OF dx])
  from bind_res_Inr [OF r4] obtain bv s6 where
    du: "dldu s5 = Inr (bv, s6)"
    and r5: "bind_res (interp1d (time s6) ?A) (\<lambda>Ai.
          bind_res (interp1d (time s6) ?B) (\<lambda>Bi.
          bind_res (interp1d (time s6) av) (\<lambda>ai.
          bind_res (interp1d (time s6) bv) (\<lambda>bi.
            Inr (s6\<lparr>A_interp := Some Ai, B_interp := Some Bi,
                        a_interp := Some ai, b_interp := Some bi\<rparr>))))) = Inr self'"
    by (cases rule: prod.exhaust) auto
  have s6: "s6 = s5\<lparr>b_current := Some bv\<rparr>" by (rule dldu_frame [OF du])
  have t6: "time s6 = time self" by (simp add: s6 s5 s4_def s2 s1)
  from bind_res_Inr [OF r5] obtain Ai where
    A: "interp1d (time s6) ?A = Inr Ai"
    and r6: "bind_res (interp1d (time s6) ?B) (\<lambda>Bi.
          bind_res (interp1d (time s6) av) (\<lambda>ai.
          bind_res (interp1d (time s6) bv) (\<lambda>bi.
            Inr (s6\<lparr>A_interp := Some Ai, B_interp := Some Bi,
                        a_interp := Some ai, b_interp := Some bi\<rparr>)))) = Inr self'" by blast
  from bind_res_Inr [OF r6] obtain Bi where
    B: "interp1d (time s6) ?B = Inr Bi"
    and r7: "bind_res (interp1d (time s6) av) (\<lambda>ai.
          bind_res (interp1d (time s6) bv) (\<lambda>bi.
            Inr (s6\<lparr>A_interp := Some Ai, B_interp := Some Bi,
                        a_interp := Some ai, b_interp := Some bi\<rparr>))) = Inr self'" by blast
  from bind_res_Inr [OF r7] obtain ai where
    r8: "bind_res (interp1d (time s6) bv) (\<lambda>bi.
            Inr (s6\<lparr>A_interp := Some Ai, B_interp := Some Bi,
                        a_interp := Some ai, b_interp := Some bi\<rparr>)) = Inr self'" by blast
  from bind_res_Inr [OF r8] obtain bi where
    e: "self' = s6\<lparr>A_interp := Some Ai, B_interp := Some Bi,
                        a_interp := Some ai, b_interp := Some bi\<rparr>" by auto
  have "self' = self\<lparr>X_current := Some X, U_current := Some U, ck := Some cc, ak := Some g,
                     A_current := Some ?A, B_current := Some ?B,
                     a_current := Some av, b_current := Some bv,
                     A_interp := Some Ai, B_interp := Some Bi,
                     a_interp := Some ai, b_interp := Some bi\<rparr>"
    by (simp add: e s6 s5 s4_def s2 s1)
  moreover have "interp1d (time self) ?A = Inr Ai" "interp1d (time self) ?B = Inr Bi"
    using A B by (simp_all add: t6)
  ultimately show ?thesis by blast
qed

lemma update_traj_fields:
  assumes "update_traj self X U = Inr self'"
  shows "time self' = time self" and "nx self' = nx self" and "Rn self' = Rn self"
    and "Qn self' = Qn self" and "Rk self' = Rk self" and "Qk self' = Qk self"
    and "P1 self' = P1 self"
    and "B_current self' = Some (map (\<lambda>i. 1) [0..<length (time self)])"
    and "\<exists>Ai. A_interp self' = Some Ai \<and> interp1d (time self) (map (\<lambda>i. 0) [0..<length (time self)]) = Inr Ai"
    and "\<exists>Bi. B_interp self' = Some Bi \<and> interp1d (time self) (map (\<lambda>i. 1) [0..<length (time self)]) = Inr Bi"
  using update_traj_parts [OF assms] by auto


lemma ck_loop_total:
  assumes "\<forall>index\<in>set js. \<exists>v. ck_entry self W index = Inr v"
  shows "\<exists>c. ck_loop self W js = Inr c \<and> length c = length js"
  using assms
proof (induction js)
  case Nil
  then show ?case by simp
next
  case (Cons j js)
  then obtain v c where "ck_entry self W j = Inr v" "ck_loop self W js = Inr c" "length c = length js"
    by auto
  then show ?case by (simp add: bind_res_def)
qed

lemma ck_entry_total:
  assumes "index < length (hk self)" and "index < length (klist self)"
    and "hk self ! index * last (time self) \<noteq> 0" and "length W = length (time self)"
  shows "\<exists>v. ck_entry self W index = Inr v"
  using assms by (simp add: ck_entry_def Let_def trapz_sum)

lemma ak_terms_total:
  assumes "\<forall>index\<in>set js. index < length oc \<and> index < length (klist self)"
  shows "\<exists>ts. ak_terms self oc xs js = Inr ts \<and> length ts = length js \<and>
              (\<forall>r\<in>set ts. length r = length xs)"
  using assms
proof (induction js)
  case Nil
  then show ?case by simp
next
  case (Cons j js)
  then obtain ts where "ak_terms self oc xs js = Inr ts" "length ts = length js"
    "\<forall>r\<in>set ts. length r = length xs" by auto
  then show ?case using Cons.prems by (simp add: bind_res_def Let_def)
qed

lemma column_sums_length:
  assumes "rows \<noteq> []" and "\<forall>r\<in>set rows. length r = n"
  shows "length (column_sums rows) = n"
  using assms by (induction rows rule: column_sums.induct) simp_all

lemma np_broadcast_total:
  assumes "length xs = length ys \<or> length xs = 1 \<or> length ys = 1"
  shows "\<exists>r. np_broadcast f xs ys = Inr r \<and>
           length r = (if length xs = length ys then length xs
                       else if length xs = 1 then length ys else length xs)"
  using assms by (auto simp: np_broadcast_def)


lemma update_traj_succeeds:
  assumes "sorted_wrt (<) (time self)" and "2 \<le> length (time self)"
    and "length X = length (time self)" and "length U = length (time self)"
    and "nu self = 1"
    and "length (hk self) = nat (Nfourier self)" and "length (klist self) = nat (Nfourier self)"
    and "length (Lambdak self) = nat (Nfourier self)"
    and "uk self = Some u" and "length u = nat (Nfourier self)"
    and "\<forall>k<nat (Nfourier self). hk self ! k \<noteq> 0" and "last (time self) \<noteq> 0"
  shows "\<exists>self'. update_traj self X U = Inr self'"
proof -
  define n where "n = length (time self)"
  define N where "N = nat (Nfourier self)"
  define s0 where "s0 = self\<lparr>X_current := Some X, U_current := Some U\<rparr>"
  have f0: "time s0 = time self" "hk s0 = hk self" "klist s0 = klist self" "Nfourier s0 = Nfourier self"
    "X_current s0 = Some X" "U_current s0 = Some U" "uk s0 = Some u" "Lambdak s0 = Lambdak self"
    "nu s0 = 1"
    by (simp_all add: s0_def assms(5,9))
  have ne: "time self \<noteq> []" using assms(2) by auto
  \<comment> \<open>ckeval\<close>
  have "\<forall>index\<in>set [0..<N]. \<exists>v. ck_entry s0 X index = Inr v"
  proof
    fix index assume "index \<in> set [0..<N]"
    then have i: "index < N" by simp
    show "\<exists>v. ck_entry s0 X index = Inr v"
      using i assms(3,6,7,11,12) by (intro ck_entry_total) (simp_all add: f0 N_def)
  qed
  from ck_loop_total [OF this] obtain c where c: "ck_loop s0 X [0..<N] = Inr c" and lc: "length c = N"
    by auto
  define s1 where "s1 = s0\<lparr>ck := Some c\<rparr>"
  have ck: "ckeval s0 = Inr s1"
    using c [unfolded N_def] ne by (simp add: ckeval_def f0 bind_res_def s1_def)
  have f1: "time s1 = time self" "hk s1 = hk self" "klist s1 = klist self" "Nfourier s1 = Nfourier self"
    "X_current s1 = Some X" "U_current s1 = Some U" "uk s1 = Some u" "Lambdak s1 = Lambdak self"
    "ck s1 = Some c" "nu s1 = 1"
    by (simp_all add: s1_def f0)
  \<comment> \<open>akeval\<close>
  obtain d where d: "np_broadcast (-) c u = Inr d" and ld: "length d = N"
    using np_broadcast_total [of c u "(-)"] lc assms(10) by (auto simp: N_def)
  obtain num where num: "np_broadcast (*) (map (\<lambda>l. 2 * l) (Lambdak self)) d = Inr num"
    and lnum: "length num = N"
    using np_broadcast_total [of "map (\<lambda>l. 2 * l) (Lambdak self)" d "(*)"] ld assms(8)
    by (auto simp: N_def)
  let ?den = "map (\<lambda>h. h * last (time self)) (hk self)"
  obtain oc where oc0: "np_broadcast (\<lambda>a b. a / b) num ?den = Inr oc" and loc: "length oc = N"
    using np_broadcast_total [of num ?den "\<lambda>a b. a / b"] lnum assms(6) by (auto simp: N_def)
  have "0 \<notin> set ?den"
  proof
    assume "0 \<in> set ?den"
    then obtain k where "k < length (hk self)" "hk self ! k * last (time self) = 0"
      by (auto simp: in_set_conv_nth)
    then show False using assms(6,11,12) by simp
  qed
  then have oc: "np_divide num ?den = Inr oc"
    by (simp add: np_divide_def oc0 bind_res_def)
  have "\<forall>index\<in>set [0..<N]. index < length oc \<and> index < length (klist s1)"
    using loc assms(7) by (simp add: f1 N_def)
  from ak_terms_total [OF this, of X] obtain ts where
    ts: "ak_terms s1 oc X [0..<N] = Inr ts" and lts: "length ts = N"
    and rows: "\<forall>r\<in>set ts. length r = length X" by auto
  define g where "g = column_sums ts"
  define s2 where "s2 = s1\<lparr>ak := Some g\<rparr>"
  have ak: "akeval s1 = Inr (g, s2)"
    using ne by (simp add: akeval_def f1 d num oc ts [unfolded N_def] bind_res_def Let_def g_def s2_def)
  have lg: "length g = n \<or> length g = 1"
  proof (cases "ts = []")
    case True
    then show ?thesis by (simp add: g_def)
  next
    case False
    from column_sums_length [OF False rows] show ?thesis by (simp add: g_def n_def assms(3))
  qed
  \<comment> \<open>linearisation\<close>
  define A where "A = map (\<lambda>i. 0::real) [0..<n]"
  define B where "B = map (\<lambda>i. 1::real) [0..<n]"
  define s4 where "s4 = s2\<lparr>A_current := Some A, B_current := Some B\<rparr>"
  have lin: "dfdx s2 = (A, s2\<lparr>A_current := Some A\<rparr>)"
    "dfdu (s2\<lparr>A_current := Some A\<rparr>) = (B, s4)"
    by (simp_all add: dfdx_def dfdu_def Let_def s2_def f1 A_def B_def n_def s4_def)
  have f4: "time s4 = time self" "X_current s4 = Some X" "U_current s4 = Some U" "ak s4 = Some g"
    "nu s4 = 1"
    by (simp_all add: s4_def s2_def f1)
  \<comment> \<open>gradients\<close>
  have "length (map (\<lambda>v. ergcost s4 * v) g) = length (map (\<lambda>v. barrcost s4 * v) (Dbarrier s4 X))
      \<or> length (map (\<lambda>v. ergcost s4 * v) g) = 1
      \<or> length (map (\<lambda>v. barrcost s4 * v) (Dbarrier s4 X)) = 1"
    using lg assms(3) by (auto simp: Dbarrier_def Let_def n_def)
  from np_broadcast_total [OF this, of "(+)"] obtain a where
    a: "np_broadcast (+) (map (\<lambda>v. ergcost s4 * v) g) (map (\<lambda>v. barrcost s4 * v) (Dbarrier s4 X)) = Inr a"
    and la: "length a = n"
    using lg assms(2,3) by (auto simp: Dbarrier_def Let_def n_def split: if_splits)
  define s5 where "s5 = s4\<lparr>a_current := Some a\<rparr>"
  have dx: "dldx s4 = Inr (a, s5)"
    by (simp add: dldx_def f4 a bind_res_def s5_def)
  have f5: "time s5 = time self" "X_current s5 = Some X" "U_current s5 = Some U" "nu s5 = 1"
    by (simp_all add: s5_def f4)
  define dl where "dl = map (\<lambda>i. R s5 * (U ! i)) [0..<n]"
  have fill: "fill_pointwise (dldu_pointwise s5) X U [0..<length (time s5)] = Inr dl"
    unfolding dl_def n_def f5(1) [symmetric]
    by (rule dldu_fill) (simp_all add: f5 assms(3,4))
  have dlne: "dl \<noteq> []" using assms(2) by (auto simp: dl_def n_def)
  define b where "b = dl[0 := dl ! 0 + uinit s5 * Quinit s5]"
  define s6 where "s6 = s5\<lparr>b_current := Some b\<rparr>"
  have du: "dldu s5 = Inr (b, s6)"
    using dlne by (simp add: dldu_def f5 fill [unfolded f5(1)] bind_res_def Let_def b_def s6_def)
  have lb: "length b = n" by (simp add: b_def dl_def)
  have t6: "time s6 = time self" by (simp add: s6_def f5)
  \<comment> \<open>interpolants\<close>
  have i: "interp1d (time s6) ys = Inr (interp1d_call (time self) ys)" if "length ys = n" for ys
    unfolding t6 using that by (intro interp1d_sorted assms(1,2)) (simp add: n_def)
  have "update_traj self X U =
      Inr (s6\<lparr>A_interp := Some (interp1d_call (time self) A),
               B_interp := Some (interp1d_call (time self) B),
               a_interp := Some (interp1d_call (time self) a),
               b_interp := Some (interp1d_call (time self) b)\<rparr>)"
    unfolding update_traj_def s0_def [symmetric] ck bind_res_def sum.case ak prod.case
      Let_def lin dx du
    by (simp add: i A_def B_def la lb)
  then show ?thesis by blast
qed

subsection \<open>The gain after \<^verbatim>\<open>update_traj\<close>\<close>

lemma linear_interp_const:
  assumes "2 \<le> length xs" and "length ys = length xs" and "\<forall>i<length ys. ys ! i = c"
  shows "linear_interp xs ys v = c"
proof -
  have "interp_hi xs v < length ys" "interp_hi xs v - 1 < length ys"
    using interp_hi_bounds [OF assms(1), of v] assms(2) by simp_all
  then have "ys ! interp_hi xs v = c" "ys ! (interp_hi xs v - 1) = c"
    using assms(3) by simp_all
  then show ?thesis by (simp add: linear_interp_def Let_def)
qed

lemma interp1d_const:
  assumes "sorted_wrt (<) ts" and "2 \<le> length ts"
    and "interp1d ts (map (\<lambda>i. c) [0..<length ts]) = Inr f"
    and "hd ts \<le> v" and "v \<le> last ts"
  shows "f v = Inr c"
proof -
  let ?ys = "map (\<lambda>i. c) [0..<length ts]"
  have "interp1d ts ?ys = Inr (interp1d_call ts ?ys)"
    by (rule interp1d_sorted [OF assms(1) _ assms(2)]) simp
  then have f: "f = interp1d_call ts ?ys" using assms(3) by simp
  have "interp1d_call ts ?ys v = Inr (linear_interp ts ?ys v)"
    by (rule interp1d_call_inside [OF assms(1,2,4,5)])
  also have "linear_interp ts ?ys v = c"
    by (rule linear_interp_const [OF assms(2)]) simp_all
  finally show ?thesis by (simp add: f)
qed

lemma rk23_step_rest:
  assumes "\<And>t. f t y = Inr 0"
  shows "rk23_step f t y h = Inr y"
  by (simp add: rk23_step_def bind_res_def assms Let_def)

lemma ode_steps_rest:
  assumes "\<And>t. f t y = Inr 0"
  shows "ode_steps f t y ts = Inr (replicate (length ts) y)"
  by (induction ts arbitrary: t) (simp_all add: rk23_step_rest [of f, OF assms] bind_res_def)

lemma odeIntegrator_rest:
  assumes "\<And>t. f t y = Inr 0" and "time self \<noteq> []"
  shows "odeIntegrator self f y = Inr (replicate (length (time self)) y)"
proof -
  obtain t0 ts where t: "time self = t0 # ts" using assms(2) by (cases "time self") auto
  show ?thesis
    by (simp add: odeIntegrator_def t ode_steps_rest [of f, OF assms(1)] bind_res_def)
qed

lemma peqns_at_rest:
  assumes "nx self = 1" and "time self \<noteq> []"
    and "\<And>v. hd (time self) \<le> v \<Longrightarrow> v \<le> last (time self) \<Longrightarrow> Ai v = Inr 0 \<and> Bi v = Inr 1"
  shows "peqns self t 1 Ai Bi 1 1 = Inr 0"
proof (cases "last (time self) < t \<or> t < hd (time self)")
  case True
  then show ?thesis using assms(2) by (simp add: peqns_def outside_horizon_def bind_res_def)
next
  case False
  then have "Ai t = Inr 0 \<and> Bi t = Inr 1" by (intro assms(3)) simp_all
  then show ?thesis
    using False assms(1,2)
    by (simp add: peqns_def outside_horizon_def bind_res_def matmult_2 matmult_4)
qed

lemma peqns_reversed_at_rest:
  assumes "nx self = 1" and "time self \<noteq> []"
    and "\<And>v. hd (time self) \<le> v \<Longrightarrow> v \<le> last (time self) \<Longrightarrow> Ai v = Inr 0 \<and> Bi v = Inr 1"
  shows "peqns_reversed self t 1 Ai Bi 1 1 = Inr 0"
  using assms(2) peqns_at_rest [OF assms, where t = "last (time self) - t"]
  by (simp add: peqns_reversed_def outside_horizon_def bind_res_def)

lemma update_traj_interpolants:
  assumes "sorted_wrt (<) (time self)" and "2 \<le> length (time self)"
    and "update_traj self X U = Inr self'"
  obtains Ai Bi where "A_interp self' = Some Ai" and "B_interp self' = Some Bi"
    and "\<And>v. hd (time self) \<le> v \<Longrightarrow> v \<le> last (time self) \<Longrightarrow> Ai v = Inr 0 \<and> Bi v = Inr 1"
proof -
  from update_traj_fields(9,10) [OF assms(3)] obtain Ai Bi where
    A: "A_interp self' = Some Ai" "interp1d (time self) (map (\<lambda>i. 0) [0..<length (time self)]) = Inr Ai"
    and B: "B_interp self' = Some Bi" "interp1d (time self) (map (\<lambda>i. 1) [0..<length (time self)]) = Inr Bi"
    by blast
  have "Ai v = Inr 0 \<and> Bi v = Inr 1" if "hd (time self) \<le> v" "v \<le> last (time self)" for v
    using interp1d_const [OF assms(1,2) A(2) that] interp1d_const [OF assms(1,2) B(2) that] by simp
  with A(1) B(1) show ?thesis by (rule that)
qed

text \<open>
  After \<^verbatim>\<open>update_traj\<close>, with the values \<open>Qn = P1 = 1\<close> that the constructor sets, the
  right-hand side of the gain equation vanishes at \<open>P1\<close> for every \<open>t\<close>. The gain potential
  is then the constant sequence \<open>P1\<close>, whichever way the equation is integrated and
  whichever way the samples are ordered.
\<close>

lemma Psol_constant_at_rest:
  assumes "nx self = 1" and "Rn self = 1" and "Qn self = 1" and "P1 self = 1"
    and "sorted_wrt (<) (time self)" and "2 \<le> length (time self)"
    and "update_traj self X U = Inr self'"
  shows "Psol self' X U = Psol_time_reversed self' \<and>
         Psol self' X U = Inr (replicate (length (time self')) (P1 self')) \<and>
         (\<exists>Ai Bi. A_interp self' = Some Ai \<and> B_interp self' = Some Bi \<and>
            (\<forall>t. peqns self' t (P1 self') Ai Bi (Rn self') (Qn self') = Inr 0))"
proof -
  note f = update_traj_fields(1-7) [OF assms(7)]
  have c: "nx self' = 1" "Rn self' = 1" "Qn self' = 1" "P1 self' = 1"
    and t: "time self' = time self" and ne: "time self' \<noteq> []"
    using f assms(1-4,6) by auto
  obtain Ai Bi where A: "A_interp self' = Some Ai" and B: "B_interp self' = Some Bi"
    and AB: "\<And>v. hd (time self') \<le> v \<Longrightarrow> v \<le> last (time self') \<Longrightarrow> Ai v = Inr 0 \<and> Bi v = Inr 1"
    using update_traj_interpolants [OF assms(5,6,7)] unfolding t by blast
  have p: "peqns self' t 1 Ai Bi 1 1 = Inr 0" for t
    by (rule peqns_at_rest [OF c(1) ne AB])
  have r: "peqns_reversed self' t 1 Ai Bi 1 1 = Inr 0" for t
    by (rule peqns_reversed_at_rest [OF c(1) ne AB])
  have P: "Psol self' X U = Inr (replicate (length (time self')) 1)"
    unfolding Psol_def A B option.case c
    by (rule odeIntegrator_rest [where f = "\<lambda>t y. peqns self' t y Ai Bi 1 1" and y = 1, OF p ne])
  have "odeIntegrator self' (\<lambda>tau y. peqns_reversed self' tau y Ai Bi 1 1) 1
      = Inr (replicate (length (time self')) 1)"
    by (rule odeIntegrator_rest
        [where f = "\<lambda>tau y. peqns_reversed self' tau y Ai Bi 1 1" and y = 1, OF r ne])
  then have Q: "Psol_time_reversed self' = Inr (replicate (length (time self')) 1)"
    unfolding Psol_time_reversed_def A B option.case c by (simp add: bind_res_def)
  show ?thesis
  proof (intro conjI)
    show "Psol self' X U = Psol_time_reversed self'" unfolding P Q ..
    show "Psol self' X U = Inr (replicate (length (time self')) (P1 self'))" unfolding P c ..
    show "\<exists>Ai Bi. A_interp self' = Some Ai \<and> B_interp self' = Some Bi \<and>
            (\<forall>t. peqns self' t (P1 self') Ai Bi (Rn self') (Qn self') = Inr 0)"
      unfolding c using A B p by blast
  qed
qed


lemma hk_example_fields:
  "length (hk opt_example) = 3" "length (klist opt_example) = 3" "length (Lambdak opt_example) = 3"
  "\<forall>k<3. hk opt_example ! k \<noteq> 0"
proof -
  show "length (hk opt_example) = 3" "length (klist opt_example) = 3" "length (Lambdak opt_example) = 3"
    by (simp_all add: opt_example_def hk_init_def klist_init_def Lambdak_init_def)
  show "\<forall>k<3. hk opt_example ! k \<noteq> 0"
  proof (intro allI impI)
    fix k :: nat assume "k < 3"
    then have "k < length (klist_init 1 3)" by (simp add: klist_init_def)
    from hk_example_pos [OF this] show "hk opt_example ! k \<noteq> 0" by (simp add: opt_example_def)
  qed
qed

lemma update_traj_example:
  "\<exists>self'. update_traj (opt_example\<lparr>uk := Some [0, 0, 0]\<rparr>) [0, 0, 0] [0, 0, 0] = Inr self'"
  by (rule update_traj_succeeds [where u = "[0, 0, 0]"])
    (simp_all add: opt_example_fields hk_example_fields)

section \<open>Projection and simulation\<close>

lemma ode_steps_length: "ode_steps f t y ts = Inr ys \<Longrightarrow> length ys = length ts"
proof (induction ts arbitrary: t y ys)
  case Nil
  then show ?case by simp
next
  case (Cons t' ts)
  then show ?case
    by (auto simp: bind_res_def split: sum.splits)
qed

lemma odeIntegrator_shape:
  assumes "odeIntegrator self f y0 = Inr ys"
  shows "length ys = length (time self)" and "ys ! 0 = y0"
  using assms
  by (auto simp: odeIntegrator_def bind_res_def dest: ode_steps_length split: list.splits sum.splits)























section \<open>The order of the gain samples\<close>

lemma peqns_single_integrator:
  assumes "nx self = 1" and "time self \<noteq> []"
    and "\<And>v. hd (time self) \<le> v \<Longrightarrow> v \<le> last (time self) \<Longrightarrow> Ai v = Inr 0 \<and> Bi v = Inr 1"
    and "hd (time self) \<le> t" and "t \<le> last (time self)"
  shows "peqns self t p Ai Bi r q = Inr (q - p * p)"
proof -
  have "Ai t = Inr 0 \<and> Bi t = Inr 1" using assms(4,5) by (rule assms(3))
  then show ?thesis
    using assms(1,2,4,5)
    by (simp add: peqns_def outside_horizon_def bind_res_def matmult_2 matmult_4)
qed

text \<open>
  Whatever the right-hand side, the first sample that \<^verbatim>\<open>Psol\<close> returns is the value \<open>1\<close> it
  starts the integration from.
\<close>

lemma Psol_first_sample:
  assumes "Psol self X U = Inr ps"
  shows "length ps = length (time self)" and "ps ! 0 = 1"
proof -
  from assms obtain Ai Bi where
    "odeIntegrator self (\<lambda>t y. peqns self t y Ai Bi (Rn self) (Qn self)) 1 = Inr ps"
    by (auto simp: Psol_def split: option.splits)
  from odeIntegrator_shape [OF this]
  show "length ps = length (time self)" and "ps ! 0 = 1" by simp_all
qed

lemma opt_Qn2_fields:
  "time opt_Qn2_example = [0, 1]" "nx opt_Qn2_example = 1" "nu opt_Qn2_example = 1"
  "Rn opt_Qn2_example = 1" "Qn opt_Qn2_example = 2" "P1 opt_Qn2_example = 1"
  by (simp_all add: opt_Qn2_example_def opt_example_def)

lemma update_Qn2: "update_traj opt_Qn2_example [0, 0] [0, 0] = Inr opt_Qn2_ready"
proof -
  have h: "hk opt_Qn2_example = hk opt_example" "klist opt_Qn2_example = klist opt_example"
    "Lambdak opt_Qn2_example = Lambdak opt_example" "Nfourier opt_Qn2_example = 3"
    "uk opt_Qn2_example = Some [0, 0, 0]"
    by (simp_all add: opt_Qn2_example_def opt_example_fields)
  have "\<exists>self'. update_traj opt_Qn2_example [0, 0] [0, 0] = Inr self'"
    by (rule update_traj_succeeds [where u = "[0, 0, 0]"])
      (simp_all add: opt_Qn2_fields h hk_example_fields)
  then show ?thesis by (auto simp: opt_Qn2_ready_def)
qed

text \<open>
  Claim C2. The gain potential is to follow the time-reversal convention: integrate in
  \<open>\<tau> = T - t\<close> from the boundary value \<open>P1\<close> and reverse the samples, so that \<open>P1\<close> is the
  value at \<open>t = T\<close> and the first sample is the value at \<open>t = 0\<close>. \<^verbatim>\<open>Rsol\<close> with \<^verbatim>\<open>reqns\<close>
  does so; \<^verbatim>\<open>Psol\<close> with \<^verbatim>\<open>peqns\<close> neither substitutes nor reverses. On the grid \<open>0, 1\<close>
  with \<open>Qn = 2\<close>, where the gain equation is \<open>P' = 2 - P\<^sup>2\<close>, \<^verbatim>\<open>Psol\<close> returns the samples
  \<open>1, 111/64\<close>: the boundary value comes first. The convention gives \<open>111/64, 1\<close>.
\<close>

theorem Psol_not_time_reversed:
  "update_traj opt_Qn2_example [0, 0] [0, 0] = Inr opt_Qn2_ready \<and>
   Psol opt_Qn2_ready [0, 0] [0, 0] = Inr [1, 111/64] \<and>
   Psol_time_reversed opt_Qn2_ready = Inr [111/64, 1]"
proof -
  note u = update_Qn2
  have f: "time opt_Qn2_ready = [0, 1]" "nx opt_Qn2_ready = 1" "Rn opt_Qn2_ready = 1"
    "Qn opt_Qn2_ready = 2" "P1 opt_Qn2_ready = 1"
    using update_traj_fields(1,2,3,4,7) [OF u] by (simp_all add: opt_Qn2_fields)
  have s: "sorted_wrt (<) (time opt_Qn2_example)" "2 \<le> length (time opt_Qn2_example)"
    by (simp_all add: opt_Qn2_fields)
  obtain Ai Bi where A: "A_interp opt_Qn2_ready = Some Ai" and B: "B_interp opt_Qn2_ready = Some Bi"
    and AB: "\<And>v. hd (time opt_Qn2_example) \<le> v \<Longrightarrow> v \<le> last (time opt_Qn2_example)
               \<Longrightarrow> Ai v = Inr 0 \<and> Bi v = Inr 1"
    using update_traj_interpolants [OF s u] by blast
  have ne: "time opt_Qn2_ready \<noteq> []" by (simp add: f)
  have AB': "\<And>v. hd (time opt_Qn2_ready) \<le> v \<Longrightarrow> v \<le> last (time opt_Qn2_ready)
               \<Longrightarrow> Ai v = Inr 0 \<and> Bi v = Inr 1"
    using AB by (simp add: f opt_Qn2_fields)
  have p: "peqns opt_Qn2_ready t y Ai Bi 1 2 = Inr (2 - y * y)" if "0 \<le> t" "t \<le> 1" for t y
    by (rule peqns_single_integrator [OF f(2) ne AB']) (simp_all add: f that)
  have q: "peqns_reversed opt_Qn2_ready t y Ai Bi 1 2 = Inr (2 - y * y)" if "0 \<le> t" "t \<le> 1" for t y
    using that p [of "1 - t" y]
    by (simp add: peqns_reversed_def outside_horizon_def f bind_res_def)
  have P: "Psol opt_Qn2_ready [0, 0] [0, 0] = Inr [1, 111/64]"
    by (simp add: Psol_def A B f odeIntegrator_def rk23_step_def bind_res_def p Let_def)
  have Q: "Psol_time_reversed opt_Qn2_ready = Inr [111/64, 1]"
    by (simp add: Psol_time_reversed_def A B f odeIntegrator_def rk23_step_def bind_res_def q Let_def)
  show ?thesis using u P Q by (intro conjI)
qed

section \<open>Rounding\<close>

lemma round_half_even_of_int: "round_half_even (of_int n) = n"
  by (simp add: round_half_even_def)

lemma round_half_even_nonneg: "0 \<le> x \<Longrightarrow> 0 \<le> round_half_even x"
  by (auto simp: round_half_even_def Let_def)


lemma round_half_even_small: "\<bar>x\<bar> \<le> 1/2 \<Longrightarrow> round_half_even x = 0"
proof -
  assume a: "\<bar>x\<bar> \<le> 1/2"
  show ?thesis
  proof (cases "0 \<le> x")
    case True
    then have "\<lfloor>x\<rfloor> = 0" using a by (simp add: floor_eq_iff)
    then show ?thesis using a True by (simp add: round_half_even_def Let_def)
  next
    case False
    then have "\<lfloor>x\<rfloor> = -1" using a by (simp add: floor_eq_iff)
    then show ?thesis using a False by (auto simp: round_half_even_def Let_def)
  qed
qed

lemma f64_round_0: "f64_round 0 = 0"
  by (simp add: f64_round_def)

lemma f64_round_nonneg: "0 \<le> x \<Longrightarrow> 0 \<le> f64_round x"
  by (simp add: f64_round_def round_half_even_nonneg)


lemma f64_exponent_tiny:
  assumes "x \<noteq> 0" and "\<bar>x\<bar> \<le> 1 / 2 ^ 1075"
  shows "f64_exponent x = - 1074"
proof -
  have "\<bar>x\<bar> \<le> 2 powr (- 1075)"
    using assms(2) by (simp add: powr_minus powr_realpow divide_simps)
  then have "log 2 \<bar>x\<bar> \<le> - 1075"
    using assms(1) by (simp add: log_le_iff)
  moreover have "real_of_int \<lfloor>log 2 \<bar>x\<bar>\<rfloor> \<le> log 2 \<bar>x\<bar>" by (rule of_int_floor_le)
  ultimately have "real_of_int \<lfloor>log 2 \<bar>x\<bar>\<rfloor> \<le> real_of_int (- 1075)" by linarith
  then have "\<lfloor>log 2 \<bar>x\<bar>\<rfloor> \<le> - 1075" by (simp only: of_int_le_iff)
  then have "\<lfloor>log 2 \<bar>x\<bar>\<rfloor> - 52 \<le> - 1074" by linarith
  then show ?thesis unfolding f64_exponent_def by (rule max_absorb2)
qed

lemma f64_round_tiny:
  assumes "\<bar>x\<bar> \<le> 1 / 2 ^ 1075"
  shows "f64_round x = 0"
proof (cases "x = 0")
  case True then show ?thesis by (simp add: f64_round_def)
next
  case False
  have e: "f64_exponent x = - 1074" by (rule f64_exponent_tiny [OF False assms])
  have p: "2 powr (- 1074) = 1 / (2::real) ^ 1074"
    by (simp add: powr_minus powr_realpow divide_simps)
  have "\<bar>x / (1 / 2 ^ 1074)\<bar> \<le> 1/2"
    using assms by (simp add: abs_mult)
  then have "round_half_even (x / (1 / 2 ^ 1074)) = 0" by (rule round_half_even_small)
  then show ?thesis using False by (simp add: f64_round_def e p)
qed

lemma f64_round_pow2:
  assumes "- 1074 \<le> k"
  shows "f64_round (2 powr of_int k) = 2 powr of_int k"
proof -
  have l: "\<lfloor>log 2 \<bar>2 powr of_int k\<bar>\<rfloor> = k" by simp
  define e where "e = f64_exponent (2 powr of_int k)"
  have e: "e = max (k - 52) (- 1074)" by (simp add: e_def f64_exponent_def l)
  then have ek: "e \<le> k" using assms by simp
  have "(2::real) powr of_int k / 2 powr of_int e = 2 powr of_int (k - e)"
    by (simp add: powr_diff)
  also have "\<dots> = 2 ^ nat (k - e)"
    using ek by (simp add: powr_realpow [symmetric])
  also have "\<dots> = of_int (2 ^ nat (k - e))" by simp
  finally have "round_half_even (2 powr of_int k / 2 powr of_int e) = 2 ^ nat (k - e)"
    by (simp only: round_half_even_of_int)
  moreover have "real_of_int (2 ^ nat (k - e)) * 2 powr of_int e = 2 powr of_int k"
  proof -
    have "real_of_int (2 ^ nat (k - e)) = 2 powr of_int (k - e)"
      using ek by (simp add: powr_realpow [symmetric])
    then show ?thesis by (simp add: powr_add [symmetric])
  qed
  ultimately show ?thesis by (simp add: f64_round_def e_def [symmetric])
qed

lemma f64_finite: "\<bar>f64_round x\<bar> < 2 ^ 1024 \<Longrightarrow> f64 x = Inr (f64_round x)"
  by (simp add: f64_def)

lemma f64_0: "f64 0 = Inr 0"
  by (simp add: f64_def f64_round_0)

lemma f64_tiny: "\<bar>x\<bar> \<le> 1 / 2 ^ 1075 \<Longrightarrow> f64 x = Inr 0"
  by (simp add: f64_def f64_round_tiny)

lemma f64_inverse_pow2: "n \<le> 1074 \<Longrightarrow> f64 (1 / 2 ^ n) = Inr (1 / 2 ^ n)"
proof -
  assume n: "n \<le> 1074"
  have p: "2 powr of_int (- int n) = 1 / (2::real) ^ n"
    by (simp add: powr_minus powr_realpow divide_simps)
  have "f64_round (1 / 2 ^ n) = 1 / 2 ^ n"
    using f64_round_pow2 [of "- int n"] n unfolding p by simp
  moreover have "\<bar>1 / (2::real) ^ n\<bar> < 2 ^ 1024"
  proof -
    have "\<bar>1 / (2::real) ^ n\<bar> \<le> 1" by (simp add: divide_simps)
    also have "(1::real) < 2 ^ 1024" by (rule one_less_power) simp_all
    finally show ?thesis .
  qed
  ultimately show ?thesis using f64_finite [of "1 / 2 ^ n"] by simp
qed

lemma f64_pow2: "n \<le> 1023 \<Longrightarrow> f64 (2 ^ n) = Inr (2 ^ n)"
proof -
  assume n: "n \<le> 1023"
  have p: "2 powr of_int (int n) = (2::real) ^ n"
    by (simp add: powr_realpow)
  have "f64_round (2 ^ n) = 2 ^ n"
    using f64_round_pow2 [of "int n"] unfolding p by simp
  moreover have "\<bar>(2::real) ^ n\<bar> < 2 ^ 1024"
  proof -
    have "(2::real) ^ n < 2 ^ 1024" using n by (intro power_strict_increasing) simp_all
    then show ?thesis by simp
  qed
  ultimately show ?thesis using f64_finite [of "2 ^ n"] by simp
qed

lemma f64_nonneg: "f64 x = Inr y \<Longrightarrow> 0 \<le> x \<Longrightarrow> 0 \<le> y"
  by (auto simp: f64_def f64_round_nonneg split: if_splits)

subsection \<open>Rounding is monotone, odd and idempotent\<close>

lemma round_half_even_bounds: "\<lfloor>x\<rfloor> \<le> round_half_even x" "round_half_even x \<le> \<lfloor>x\<rfloor> + 1"
  by (simp_all add: round_half_even_def Let_def)

lemma round_half_even_mono:
  assumes "a \<le> b"
  shows "round_half_even a \<le> round_half_even b"
proof (cases "\<lfloor>a\<rfloor> = \<lfloor>b\<rfloor>")
  case True
  have "a - of_int \<lfloor>a\<rfloor> \<le> b - of_int \<lfloor>b\<rfloor>" using assms True by simp
  then show ?thesis unfolding round_half_even_def Let_def True by auto
next
  case False
  have "\<lfloor>a\<rfloor> \<le> \<lfloor>b\<rfloor>" using assms by (rule floor_mono)
  with False have "\<lfloor>a\<rfloor> + 1 \<le> \<lfloor>b\<rfloor>" by simp
  with round_half_even_bounds(2) [of a] round_half_even_bounds(1) [of b]
  show ?thesis by linarith
qed

lemma round_half_even_minus: "round_half_even (- x) = - round_half_even x"
proof (cases "x = of_int \<lfloor>x\<rfloor>")
  case True
  then obtain n where "x = of_int n" ..
  then have "round_half_even x = n" "round_half_even (- x) = - n"
    using round_half_even_of_int [of n] round_half_even_of_int [of "- n"] by simp_all
  then show ?thesis by simp
next
  case False
  have f: "\<lfloor>- x\<rfloor> = - \<lfloor>x\<rfloor> - 1"
    using False by (simp add: floor_minus ceiling_altdef)
  have r: "0 < x - of_int \<lfloor>x\<rfloor>" "x - of_int \<lfloor>x\<rfloor> < 1"
    using False of_int_floor_le [of x] by linarith+
  show ?thesis
    unfolding round_half_even_def Let_def f using r by auto
qed

lemma f64_exponent_minus: "f64_exponent (- x) = f64_exponent x"
  by (simp add: f64_exponent_def)

lemma f64_round_minus: "f64_round (- x) = - f64_round x"
  by (simp add: f64_round_def f64_exponent_minus round_half_even_minus)


lemma f64_exponent_upper:
  assumes "0 < x"
  shows "x / 2 powr of_int (f64_exponent x) < 2 ^ 53"
proof -
  define l where "l = \<lfloor>log 2 x\<rfloor>"
  have "log 2 x < of_int l + 1" unfolding l_def by linarith
  then have "x < 2 powr (of_int l + 1)" using assms by (simp add: log_less_iff)
  also have "\<dots> \<le> 2 powr (of_int (f64_exponent x) + 53)"
  proof -
    have "l - 52 \<le> f64_exponent x" using assms by (simp add: f64_exponent_def l_def)
    then have "real_of_int l + 1 \<le> of_int (f64_exponent x) + 53" by linarith
    then show ?thesis by simp
  qed
  also have "\<dots> = 2 powr of_int (f64_exponent x) * 2 ^ 53"
    by (simp add: powr_add powr_realpow [symmetric])
  finally show ?thesis by (simp add: divide_simps mult.commute)
qed





lemma f64_exponent_ge: "- 1074 \<le> f64_exponent x"
  by (simp add: f64_exponent_def)

lemma f64_round_scaled_int:
  assumes "f64_exponent (of_int n * 2 powr of_int e) \<le> e" and "n \<noteq> 0"
  shows "f64_round (of_int n * 2 powr of_int e) = of_int n * 2 powr of_int e"
proof -
  define y :: real where "y = of_int n * 2 powr of_int e"
  define ey where "ey = f64_exponent y"
  have le: "ey \<le> e" using assms(1) by (simp add: ey_def y_def)
  have y0: "y \<noteq> 0" using assms(2) by (simp add: y_def)
  have p: "(2::real) powr of_int e = 2 ^ nat (e - ey) * 2 powr of_int ey"
  proof -
    have "(2::real) powr of_int e = 2 powr (of_int (e - ey) + of_int ey)" by simp
    also have "\<dots> = 2 powr of_int (e - ey) * 2 powr of_int ey" by (simp only: powr_add)
    also have "(2::real) powr of_int (e - ey) = 2 ^ nat (e - ey)"
      using le by (simp add: powr_realpow [symmetric])
    finally show ?thesis .
  qed
  have "y / 2 powr of_int ey = of_int n * 2 ^ nat (e - ey)"
    unfolding y_def p by simp
  also have "\<dots> = of_int (n * 2 ^ nat (e - ey))" by simp
  finally have q: "y / 2 powr of_int ey = of_int (n * 2 ^ nat (e - ey))" .
  have "f64_round y = of_int (round_half_even (y / 2 powr of_int ey)) * 2 powr of_int ey"
    using y0 by (simp add: f64_round_def ey_def)
  also have "\<dots> = of_int (n * 2 ^ nat (e - ey)) * 2 powr of_int ey"
    unfolding q round_half_even_of_int ..
  also have "\<dots> = of_int n * (2 ^ nat (e - ey) * 2 powr of_int ey)" by simp
  also have "\<dots> = y" unfolding y_def p ..
  finally show ?thesis unfolding y_def .
qed

lemma f64_round_representable:
  assumes "- 1074 \<le> e" and "\<bar>n\<bar> \<le> 2 ^ 53"
  shows "f64_round (of_int n * 2 powr of_int e) = of_int n * 2 powr of_int e"
proof -
  consider (zero) "n = 0" | (top) "n = 2 ^ 53" | (bot) "n = - (2 ^ 53)"
    | (inner) "n \<noteq> 0" "\<bar>n\<bar> < 2 ^ 53"
    using assms(2) by fastforce
  then show ?thesis
  proof cases
    case zero
    then show ?thesis by (simp add: f64_round_0)
  next
    case top
    have "real_of_int n * 2 powr of_int e = 2 powr of_int (e + 53)"
      unfolding top by (simp add: powr_add powr_realpow [symmetric])
    moreover have "- 1074 \<le> e + 53" using assms(1) by simp
    ultimately show ?thesis using f64_round_pow2 [of "e + 53"] by simp
  next
    case bot
    have "real_of_int n * 2 powr of_int e = - (2 powr of_int (e + 53))"
      unfolding bot by (simp add: powr_add powr_realpow [symmetric])
    moreover have "- 1074 \<le> e + 53" using assms(1) by simp
    ultimately show ?thesis using f64_round_pow2 [of "e + 53"] by (simp add: f64_round_minus)
  next
    case inner
    define y :: real where "y = of_int n * 2 powr of_int e"
    have an: "1 \<le> \<bar>real_of_int n\<bar>" "\<bar>real_of_int n\<bar> < 2 ^ 53"
    proof -
      from inner(1) have "1 \<le> \<bar>n\<bar>" by simp
      then show "1 \<le> \<bar>real_of_int n\<bar>" by (metis of_int_1 of_int_abs of_int_le_iff)
      from inner(2) have "real_of_int \<bar>n\<bar> < real_of_int (2 ^ 53)" by (simp only: of_int_less_iff)
      then show "\<bar>real_of_int n\<bar> < 2 ^ 53" by simp
    qed
    have ay: "\<bar>y\<bar> = \<bar>real_of_int n\<bar> * 2 powr of_int e"
      by (simp add: y_def abs_mult)
    have "\<bar>y\<bar> < 2 ^ 53 * 2 powr of_int e"
      unfolding ay using an(2) by (simp add: mult_strict_right_mono)
    also have "\<dots> = 2 powr (of_int e + 53)"
      by (simp add: powr_add powr_realpow [symmetric])
    finally have "log 2 \<bar>y\<bar> < of_int e + 53"
      using inner(1) by (simp add: log_less_iff y_def)
    then have "\<lfloor>log 2 \<bar>y\<bar>\<rfloor> < e + 53" by (simp add: floor_less_iff)
    then have "f64_exponent y \<le> e" using assms(1) by (simp add: f64_exponent_def)
    then show ?thesis unfolding y_def using inner(1) by (rule f64_round_scaled_int)
  qed
qed

lemma f64_round_int:
  assumes "\<bar>n\<bar> \<le> 2 ^ 53"
  shows "f64_round (of_int n) = of_int n"
  using f64_round_representable [of 0 n] assms by simp

lemma f64_round_int_over_pow2:
  assumes "\<bar>n\<bar> \<le> 2 ^ 53" and "k \<le> 1074"
  shows "f64_round (of_int n / 2 ^ k) = of_int n / 2 ^ k"
proof -
  have "(2::real) powr of_int (- int k) = 1 / 2 ^ k"
    by (simp add: powr_minus powr_realpow divide_simps)
  then show ?thesis using f64_round_representable [of "- int k" n] assms by simp
qed

lemma f64_round_idem: "f64_round (f64_round x) = f64_round x"
proof (cases "x = 0")
  case True
  then show ?thesis by (simp add: f64_round_0)
next
  case False
  define e where "e = f64_exponent x"
  define m where "m = round_half_even (x / 2 powr of_int e)"
  have fx: "f64_round x = of_int m * 2 powr of_int e"
    using False by (simp add: f64_round_def e_def m_def)
  have "\<bar>x\<bar> / 2 powr of_int (f64_exponent \<bar>x\<bar>) < 2 ^ 53"
    using False by (intro f64_exponent_upper) simp
  moreover have "f64_exponent \<bar>x\<bar> = e" by (simp add: e_def f64_exponent_def)
  ultimately have b: "\<bar>x / 2 powr of_int e\<bar> < 2 ^ 53" by (simp add: abs_divide)
  have b': "- (2 ^ 53) < x / 2 powr of_int e" "x / 2 powr of_int e < 2 ^ 53"
    using b unfolding abs_less_iff by linarith+
  have "- (2 ^ 53) \<le> m \<and> m \<le> 2 ^ 53"
  proof
    have "real_of_int (- (2 ^ 53)) \<le> x / 2 powr of_int e" using b'(1) by simp
    from round_half_even_mono [OF this] show "- (2 ^ 53) \<le> m"
      unfolding m_def round_half_even_of_int .
    have "x / 2 powr of_int e \<le> real_of_int (2 ^ 53)" using b'(2) by simp
    from round_half_even_mono [OF this] show "m \<le> 2 ^ 53"
      unfolding m_def round_half_even_of_int .
  qed
  then have "\<bar>m\<bar> \<le> 2 ^ 53" unfolding abs_le_iff by linarith
  from f64_round_representable [OF f64_exponent_ge this, of x]
  show ?thesis unfolding fx e_def .
qed

lemma f64_idem: "f64 x = Inr y \<Longrightarrow> f64 y = Inr y"
  by (auto simp: f64_def f64_round_idem split: if_splits)

section \<open>Sums of rounded additions\<close>

lemma index_plan_terms: "plan_terms (index_plan n) = [0..<Suc n]"
  by (induction n) simp_all

lemma index_order_summation: "summation_order index_order"
  unfolding summation_order_def index_order_def index_plan_terms
  by (auto simp: lessThan_def)

lemma plan_sum_zeros:
  assumes "\<forall>i\<in>set (plan_terms p). i < length xs" and "\<forall>x\<in>set xs. x = 0"
  shows "plan_sum p xs = Inr 0"
  using assms by (induction p) (auto simp: bind_res_def f64_0)

lemma plan_sum_nonneg:
  assumes "plan_sum p xs = Inr r" and "\<forall>x\<in>set xs. 0 \<le> x"
  shows "0 \<le> r"
  using assms
proof (induction p arbitrary: r)
  case (Term i)
  then show ?case by (auto split: if_splits)
next
  case (Plus p q)
  from Plus.prems(1) obtain a b where a: "plan_sum p xs = Inr a" and b: "plan_sum q xs = Inr b"
    and r: "f64 (a + b) = Inr r"
    by (auto simp: bind_res_def split: sum.splits)
  have "0 \<le> a" "0 \<le> b" using Plus.IH a b Plus.prems(2) by blast+
  then show ?case using f64_nonneg [OF r] by simp
qed

lemma np_sum64_zeros:
  assumes "summation_order order" and "\<forall>x\<in>set xs. x = 0"
  shows "np_sum64 order xs = Inr 0"
proof (cases "xs = []")
  case True then show ?thesis by (simp add: np_sum64_def)
next
  case False
  then have "0 < length xs" by simp
  with assms(1) have "set (plan_terms (order (length xs))) = {..<length xs}"
    unfolding summation_order_def by blast
  then have "\<forall>i\<in>set (plan_terms (order (length xs))). i < length xs" by simp
  from plan_sum_zeros [OF this assms(2)] False show ?thesis by (simp add: np_sum64_def)
qed

lemma np_sum64_nonneg:
  assumes "np_sum64 order xs = Inr r" and "\<forall>x\<in>set xs. 0 \<le> x"
  shows "0 \<le> r"
  using assms plan_sum_nonneg [of "order (length xs)" xs r]
  by (auto simp: np_sum64_def split: if_splits)

lemma map_res_Inr:
  "map_res f xs = Inr ys \<Longrightarrow>
     length ys = length xs \<and> (\<forall>i<length xs. f (xs ! i) = Inr (ys ! i))"
proof (induction xs arbitrary: ys)
  case Nil
  then show ?case by simp
next
  case (Cons x xs)
  from Cons.prems have "bind_res (f x) (\<lambda>v. bind_res (map_res f xs) (\<lambda>vs. Inr (v # vs))) = Inr ys"
    by simp
  then obtain v where v: "f x = Inr v"
    and r: "bind_res (map_res f xs) (\<lambda>vs. Inr (v # vs)) = Inr ys"
    by (blast dest: bind_res_Inr)
  from r obtain vs where vs: "map_res f xs = Inr vs" and ys': "(Inr (v # vs) :: py_error + _) = Inr ys"
    by (blast dest: bind_res_Inr)
  from ys' have ys: "ys = v # vs" by simp
  from Cons.IH [OF vs] have l: "length vs = length xs"
    and n: "\<forall>i<length xs. f (xs ! i) = Inr (vs ! i)" by simp_all
  have "f ((x # xs) ! i) = Inr (ys ! i)" if "i < length (x # xs)" for i
  proof (cases i)
    case 0
    then show ?thesis by (simp add: v ys)
  next
    case (Suc j)
    then have "j < length xs" using that by simp
    with n show ?thesis by (simp add: Suc ys)
  qed
  then show ?case using l by (simp add: ys)
qed


lemma map_res_set:
  assumes "map_res f xs = Inr ys" and "y \<in> set ys"
  shows "\<exists>x\<in>set xs. f x = Inr y"
proof -
  from assms(2) obtain i where i: "i < length ys" "ys ! i = y" by (auto simp: in_set_conv_nth)
  from map_res_Inr [OF assms(1)] i have a: "i < length xs" and b: "f (xs ! i) = Inr y" by simp_all
  from a have "xs ! i \<in> set xs" by (rule nth_mem)
  then show ?thesis using b by (rule rev_bexI)
qed

lemma np_broadcast_set:
  assumes "np_broadcast f xs ys = Inr zs" and "z \<in> set zs"
  shows "\<exists>x\<in>set xs. \<exists>y\<in>set ys. z = f x y"
proof -
  consider (eq) "length xs = length ys" "zs = map2 f xs ys"
    | (l) "length xs = 1" "zs = map (f (hd xs)) ys"
    | (r) "length ys = 1" "zs = map (\<lambda>x. f x (hd ys)) xs"
    using assms(1) by (auto simp: np_broadcast_def split: if_splits)
  then show ?thesis
  proof cases
    case eq
    with assms(2) obtain x y where xy: "(x, y) \<in> set (zip xs ys)" and z: "z = f x y" by auto
    from xy have "x \<in> set xs" "y \<in> set ys" by (auto dest: set_zip_leftD set_zip_rightD)
    with z show ?thesis by blast
  next
    case l
    then have "hd xs \<in> set xs" by (cases xs) auto
    with l assms(2) show ?thesis by auto
  next
    case r
    then have "hd ys \<in> set ys" by (cases ys) auto
    with r assms(2) show ?thesis by auto
  qed
qed

lemma np_op64_Inr:
  assumes "np_op64 f xs ys = Inr zs"
  obtains ps where "np_broadcast f xs ys = Inr ps" and "map_res f64 ps = Inr zs"
  using assms unfolding np_op64_def by (blast dest: bind_res_Inr)

lemma np_op64_nonneg:
  assumes "np_op64 (*) xs ys = Inr zs" and "\<forall>x\<in>set xs. 0 \<le> x" and "\<forall>y\<in>set ys. 0 \<le> y"
  shows "\<forall>z\<in>set zs. 0 \<le> z"
proof
  fix z assume z: "z \<in> set zs"
  from assms(1) obtain ps where ps: "np_broadcast (*) xs ys = Inr ps" and m: "map_res f64 ps = Inr zs"
    by (rule np_op64_Inr)
  from map_res_set [OF m z] obtain p where p: "p \<in> set ps" "f64 p = Inr z" by blast
  from np_broadcast_set [OF ps p(1)] obtain x y where "x \<in> set xs" "y \<in> set ys" "p = x * y"
    by blast
  with assms(2,3) have "0 \<le> p" by simp
  with f64_nonneg [OF p(2)] show "0 \<le> z" .
qed


section \<open>The ergodic metric\<close>


lemma f64_1: "f64 1 = Inr 1"
  using f64_pow2 [of 0] by simp

lemma index_order_3: "index_order (Suc (Suc (Suc 0))) = Plus (Plus (Term 0) (Term (Suc 0))) (Term (Suc (Suc 0)))"
  by (simp add: index_order_def)

lemma np_sum64_index_3:
  "np_sum64 index_order [a, b, c] = bind_res (f64 (a + b)) (\<lambda>s. f64 (s + c))"
  by (simp add: np_sum64_def index_order_3 bind_res_def)



lemma f64_square_underflow: "f64 (1 / 2 ^ 600 * (1 / 2 ^ 600)) = Inr 0"
  by (rule f64_tiny) simp


lemma f64_value: "f64 x = Inr y \<Longrightarrow> y = f64_round x"
  by (auto simp: f64_def split: if_splits)









section \<open>The workspace barrier\<close>

lemma map_res_zeros:
  assumes "\<forall>x\<in>set xs. f x = Inr 0"
  shows "map_res f xs = Inr (replicate (length xs) 0)"
  using assms by (induction xs) (simp_all add: bind_res_def)

lemma np_op64_same:
  assumes "length xs = length ys" and "map_res f64 (map2 f xs ys) = Inr zs"
  shows "np_op64 f xs ys = Inr zs"
  using assms by (simp add: np_op64_def np_broadcast_same bind_res_def)

lemma trapz64_zeros:
  assumes "summation_order order" and "map_res f64 (np_diff x) = Inr d"
  shows "trapz64 order (replicate (length x) 0) x = Inr 0"
proof -
  define n where "n = length x - 1"
  define z :: "real list" where "z = replicate n 0"
  have lz: "length z = n" and z0: "\<forall>v\<in>set z. v = 0" by (simp_all add: z_def)
  have ld: "length d = n" using map_res_Inr [OF assms(2)] by (simp add: np_diff_length n_def)
  have t: "tl (replicate (length x) (0::real)) = z"
    unfolding z_def n_def by (cases "length x") simp_all
  have b: "butlast (replicate (length x) (0::real)) = z"
    unfolding z_def n_def by (simp add: butlast_conv_take)
  have m0: "map_res f64 z = Inr z"
  proof -
    have "\<forall>v\<in>set z. f64 v = Inr 0" using z0 by (auto simp: f64_0)
    from map_res_zeros [OF this] show ?thesis by (simp add: z_def)
  qed
  have "map2 (+) z z = z" unfolding z_def by (intro nth_equalityI) simp_all
  then have s: "np_op64 (+) z z = Inr z"
    by (intro np_op64_same) (simp_all add: m0)
  have "map2 (*) d z = z"
    using ld unfolding z_def by (intro nth_equalityI) simp_all
  then have ds: "np_op64 (*) d z = Inr z"
    using ld lz by (intro np_op64_same) (simp_all add: m0)
  have hs: "map_res (\<lambda>v. f64 (v / 2)) z = Inr z"
  proof -
    have "\<forall>v\<in>set z. f64 (v / 2) = Inr 0" using z0 by (auto simp: f64_0)
    from map_res_zeros [OF this] show ?thesis by (simp add: z_def)
  qed
  have sm: "np_sum64 order z = Inr 0"
    by (rule np_sum64_zeros [OF assms(1) z0])
  show ?thesis
    unfolding trapz64_def assms(2) t b bind_res_def sum.case s ds hs sm ..
qed

lemma np_diff_nonneg:
  assumes "sorted x"
  shows "\<forall>v\<in>set (np_diff x). 0 \<le> v"
  using assms by (induction x rule: np_diff.induct) auto

lemma map_res_f64_nonneg:
  assumes "map_res (\<lambda>v. f64 (g v)) xs = Inr ys" and "\<forall>x\<in>set xs. 0 \<le> g x"
  shows "\<forall>y\<in>set ys. 0 \<le> y"
proof
  fix y assume "y \<in> set ys"
  from map_res_set [OF assms(1) this] obtain x where x: "x \<in> set xs" "f64 (g x) = Inr y" by blast
  from f64_nonneg [OF x(2)] assms(2) x(1) show "0 \<le> y" by simp
qed

lemma np_add64_nonneg:
  assumes "np_op64 (+) xs ys = Inr zs" and "\<forall>x\<in>set xs. 0 \<le> x" and "\<forall>y\<in>set ys. 0 \<le> y"
  shows "\<forall>z\<in>set zs. 0 \<le> z"
proof
  fix z assume z: "z \<in> set zs"
  from assms(1) obtain ps where ps: "np_broadcast (+) xs ys = Inr ps" and m: "map_res f64 ps = Inr zs"
    by (rule np_op64_Inr)
  from map_res_set [OF m z] obtain p where p: "p \<in> set ps" "f64 p = Inr z" by blast
  from np_broadcast_set [OF ps p(1)] obtain x y where "x \<in> set xs" "y \<in> set ys" "p = x + y"
    by blast
  with assms(2,3) have "0 \<le> p" by simp
  with f64_nonneg [OF p(2)] show "0 \<le> z" .
qed

lemma trapz64_nonneg:
  assumes "trapz64 order y x = Inr r" and "sorted x" and "\<forall>v\<in>set y. 0 \<le> v"
  shows "0 \<le> r"
proof -
  from assms(1) obtain d where d: "map_res f64 (np_diff x) = Inr d"
    and r1: "bind_res (np_op64 (+) (tl y) (butlast y)) (\<lambda>s.
       bind_res (np_op64 (*) d s) (\<lambda>ds.
       bind_res (map_res (\<lambda>v. f64 (v / 2)) ds) (\<lambda>hs. np_sum64 order hs))) = Inr r"
    unfolding trapz64_def by (blast dest: bind_res_Inr)
  from r1 obtain s where s: "np_op64 (+) (tl y) (butlast y) = Inr s"
    and r2: "bind_res (np_op64 (*) d s) (\<lambda>ds.
       bind_res (map_res (\<lambda>v. f64 (v / 2)) ds) (\<lambda>hs. np_sum64 order hs)) = Inr r"
    by (blast dest: bind_res_Inr)
  from r2 obtain ds where ds: "np_op64 (*) d s = Inr ds"
    and r3: "bind_res (map_res (\<lambda>v. f64 (v / 2)) ds) (\<lambda>hs. np_sum64 order hs) = Inr r"
    by (blast dest: bind_res_Inr)
  from r3 obtain hs where hs: "map_res (\<lambda>v. f64 (v / 2)) ds = Inr hs"
    and sm: "np_sum64 order hs = Inr r"
    by (blast dest: bind_res_Inr)
  have d0: "\<forall>v\<in>set d. 0 \<le> v"
    using map_res_f64_nonneg [of "\<lambda>v. v", OF d] np_diff_nonneg [OF assms(2)] by simp
  have "\<forall>v\<in>set (tl y). 0 \<le> v"
    using assms(3) by (cases y) auto
  moreover have "\<forall>v\<in>set (butlast y). 0 \<le> v"
    using assms(3) by (auto dest: in_set_butlastD)
  note this = calculation this
  from np_add64_nonneg [OF s this] have s0: "\<forall>v\<in>set s. 0 \<le> v" .
  from np_op64_nonneg [OF ds d0 s0] have "\<forall>v\<in>set ds. 0 \<le> v" .
  then have "\<forall>v\<in>set ds. 0 \<le> v / 2" by simp
  from map_res_f64_nonneg [of "\<lambda>v. v / 2", OF hs this] have "\<forall>v\<in>set hs. 0 \<le> v" .
  with sm show ?thesis by (rule np_sum64_nonneg)
qed

lemma f64_half: "f64 (1 / 2) = Inr (1 / 2)"
  using f64_inverse_pow2 [of 1] by simp

lemma f64_quarter: "f64 (1 / 4) = Inr (1 / 4)"
  using f64_inverse_pow2 [of 2] by simp

lemma index_order_2: "index_order (Suc (Suc 0)) = Plus (Term 0) (Term (Suc 0))"
  by (simp add: index_order_def)

lemma np_sum64_index_2: "np_sum64 index_order [a, b] = f64 (a + b)"
  by (simp add: np_sum64_def index_order_2 bind_res_def)

lemma bind_res_of_Inr: "bind_res (Inr v) f = f v"
  by (simp add: bind_res_def)

lemma barrier_zero_or_more:
  assumes "summation_order order" and "length xk = length (time self)"
    and "map_res f64 (np_diff (time self)) = Inr d"
  shows "((\<forall>x\<in>set xk. 0 \<le> x \<and> x \<le> wlimit self) \<longrightarrow> barrier order self xk = Inr 0) \<and>
         (\<forall>b. sorted (time self) \<and> barrier order self xk = Inr b \<longrightarrow> 0 \<le> b)"
proof (intro conjI impI allI)
  assume inside: "\<forall>x\<in>set xk. 0 \<le> x \<and> x \<le> wlimit self"
  let ?f = "\<lambda>x. if x > wlimit self
                  then bind_res (f64 (x - wlimit self)) (\<lambda>d. f64 (d * d)) else Inr 0"
  let ?g = "\<lambda>(b, x). if x < 0 then bind_res (f64 (x * x)) (\<lambda>q. f64 (b + q)) else Inr b"
  define z :: "real list" where "z = replicate (length xk) 0"
  have "\<forall>x\<in>set xk. ?f x = Inr 0" using inside by auto
  from map_res_zeros [OF this] have b1: "map_res ?f xk = Inr z" by (simp add: z_def)
  have "\<forall>p\<in>set (zip z xk). ?g p = Inr 0"
  proof
    fix p assume p: "p \<in> set (zip z xk)"
    obtain b x where bx: "p = (b, x)" by (cases p)
    from p have "b \<in> set z" "x \<in> set xk"
      unfolding bx by (auto dest: set_zip_leftD set_zip_rightD)
    then have "b = 0" "\<not> x < 0" using inside by (auto simp: z_def)
    then show "?g p = Inr 0" by (simp add: bx)
  qed
  from map_res_zeros [OF this] have b2: "map_res ?g (zip z xk) = Inr z" by (simp add: z_def)
  have "trapz64 order z (time self) = Inr 0"
    unfolding z_def assms(2) by (rule trapz64_zeros [OF assms(1,3)])
  then show "barrier order self xk = Inr 0"
    unfolding barrier_def b1 bind_res_of_Inr b2 .
next
  fix b
  assume a: "sorted (time self) \<and> barrier order self xk = Inr b"
  let ?f = "\<lambda>x. if x > wlimit self
                  then bind_res (f64 (x - wlimit self)) (\<lambda>d. f64 (d * d)) else Inr 0"
  let ?g = "\<lambda>(b, x). if x < 0 then bind_res (f64 (x * x)) (\<lambda>q. f64 (b + q)) else Inr b"
  from a have "barrier order self xk = Inr b" by simp
  then obtain b1 where b1: "map_res ?f xk = Inr b1"
    and r1: "bind_res (map_res ?g (zip b1 xk)) (\<lambda>barr_cost. trapz64 order barr_cost (time self)) = Inr b"
    unfolding barrier_def by (blast dest: bind_res_Inr)
  from r1 obtain b2 where b2: "map_res ?g (zip b1 xk) = Inr b2"
    and t: "trapz64 order b2 (time self) = Inr b"
    by (blast dest: bind_res_Inr)
  have p1: "\<forall>y\<in>set b1. 0 \<le> y"
  proof
    fix y assume "y \<in> set b1"
    from map_res_set [OF b1 this] obtain x where x: "?f x = Inr y" by blast
    show "0 \<le> y"
    proof (cases "x > wlimit self")
      case True
      with x have "bind_res (f64 (x - wlimit self)) (\<lambda>d. f64 (d * d)) = Inr y" by simp
      then obtain dd where "f64 (dd * dd) = Inr y" by (blast dest: bind_res_Inr)
      from f64_nonneg [OF this] show ?thesis by simp
    next
      case False
      with x show ?thesis by simp
    qed
  qed
  have p2: "\<forall>y\<in>set b2. 0 \<le> y"
  proof
    fix y assume "y \<in> set b2"
    from map_res_set [OF b2 this] obtain p where p: "p \<in> set (zip b1 xk)" "?g p = Inr y" by blast
    obtain c x where cx: "p = (c, x)" by (cases p)
    from p(1) have "c \<in> set b1" unfolding cx by (rule set_zip_leftD)
    with p1 have c: "0 \<le> c" by simp
    show "0 \<le> y"
    proof (cases "x < 0")
      case True
      with p(2) have "bind_res (f64 (x * x)) (\<lambda>q. f64 (c + q)) = Inr y" by (simp add: cx)
      then obtain q where q: "f64 (x * x) = Inr q" and y: "f64 (c + q) = Inr y"
        by (blast dest: bind_res_Inr)
      from f64_nonneg [OF q] have "0 \<le> q" by simp
      with c f64_nonneg [OF y] show ?thesis by simp
    next
      case False
      with p(2) c show ?thesis by (simp add: cx)
    qed
  qed
  from a have "sorted (time self)" by simp
  from trapz64_nonneg [OF t this p2] show "0 \<le> b" .
qed

lemma time_example_diff: "map_res f64 (np_diff (time opt_example)) = Inr [1 / 2, 1 / 2]"
  by (simp add: opt_example_def bind_res_def f64_half)

text \<open>
  A sample outside the interval does not make the value positive: the square of the
  excursion \<open>2\<^sup>-\<^sup>6\<^sup>0\<^sup>0\<close> below \<open>0\<close> rounds to \<open>0\<close>.
\<close>

theorem barrier_underflow_counterexample:
  "barrier index_order opt_example [1 / 2, - (1 / 2 ^ 600), 0] = Inr 0 \<and>
   - (1 / 2 ^ 600) < (0::real) \<and> wlimit opt_example = 1"
proof -
  define a :: real where "a = 1 / 2 ^ 600"
  have a0: "0 < a" by (simp add: a_def)
  have a2: "f64 (a * a) = Inr 0" unfolding a_def by (rule f64_square_underflow)
  have w: "wlimit opt_example = 1" and t: "time opt_example = [0, 1 / 2, 1]"
    by (simp_all add: opt_example_def)
  have tz: "trapz64 index_order [0, 0, 0] (time opt_example) = Inr 0"
    using trapz64_zeros [OF index_order_summation time_example_diff] by (simp add: t)
  have "barrier index_order opt_example [1 / 2, - a, 0] = Inr 0"
    using a0 by (simp add: barrier_def w bind_res_def a2 f64_0 tz)
  then show ?thesis using a0 w unfolding a_def by simp
qed

lemma map_res_pointwise:
  "length ys = length xs \<Longrightarrow> \<forall>i<length xs. f (xs ! i) = Inr (ys ! i) \<Longrightarrow> map_res f xs = Inr ys"
proof (induction xs arbitrary: ys)
  case Nil
  then show ?case by simp
next
  case (Cons x xs)
  from Cons.prems(1) obtain y ys' where ys: "ys = y # ys'" by (cases ys) auto
  have "f x = Inr y" using Cons.prems(2) by (auto simp: ys)
  moreover have "map_res f xs = Inr ys'"
  proof (rule Cons.IH)
    show "length ys' = length xs" using Cons.prems(1) by (simp add: ys)
    show "\<forall>i<length xs. f (xs ! i) = Inr (ys' ! i)"
    proof (intro allI impI)
      fix i assume "i < length xs"
      then have "Suc i < length (x # xs)" by simp
      with Cons.prems(2) have "f ((x # xs) ! Suc i) = Inr (ys ! Suc i)" by blast
      then show "f (xs ! i) = Inr (ys' ! i)" by (simp add: ys)
    qed
  qed
  ultimately show ?case by (simp add: ys bind_res_def)
qed

lemma barrier_pointwise:
  assumes "0 \<le> wlimit self"
  shows "barrier order self xk = Inr b \<longleftrightarrow>
    (\<exists>y. map_res (\<lambda>x. if x > wlimit self
                          then bind_res (f64 (x - wlimit self)) (\<lambda>d. f64 (d * d))
                          else if x < 0 then f64 (x * x) else Inr 0) xk = Inr y \<and>
         trapz64 order y (time self) = Inr b)"
proof
  let ?f = "\<lambda>x. if x > wlimit self
                  then bind_res (f64 (x - wlimit self)) (\<lambda>d. f64 (d * d)) else Inr 0"
  let ?g = "\<lambda>(b, x). if x < 0 then bind_res (f64 (x * x)) (\<lambda>q. f64 (b + q)) else Inr b"
  let ?p = "\<lambda>x. if x > wlimit self
                  then bind_res (f64 (x - wlimit self)) (\<lambda>d. f64 (d * d))
                  else if x < 0 then f64 (x * x) else Inr 0"
  {
    assume "barrier order self xk = Inr b"
    then obtain b1 where b1: "map_res ?f xk = Inr b1"
      and r1: "bind_res (map_res ?g (zip b1 xk)) (\<lambda>barr_cost. trapz64 order barr_cost (time self)) = Inr b"
      unfolding barrier_def by (blast dest: bind_res_Inr)
    from r1 obtain b2 where b2: "map_res ?g (zip b1 xk) = Inr b2"
      and t: "trapz64 order b2 (time self) = Inr b"
      by (blast dest: bind_res_Inr)
    note B1 = map_res_Inr [OF b1, THEN conjunct2, rule_format]
      and B2 = map_res_Inr [OF b2, THEN conjunct2, rule_format]
    have l: "length b1 = length xk" "length b2 = length xk"
      using map_res_Inr [OF b1] map_res_Inr [OF b2] by simp_all
    have "map_res ?p xk = Inr b2"
    proof (rule map_res_pointwise [OF l(2)], intro allI impI)
      fix i assume i: "i < length xk"
      define x where "x = xk ! i"
      have f: "?f x = Inr (b1 ! i)" unfolding x_def by (rule B1 [OF i])
      have "i < length (zip b1 xk)" using i l by simp
      from B2 [OF this] have "?g (zip b1 xk ! i) = Inr (b2 ! i)" .
      moreover have "zip b1 xk ! i = (b1 ! i, x)" using i l by (simp add: x_def)
      ultimately have g: "?g (b1 ! i, x) = Inr (b2 ! i)" by (simp only:)
      show "?p (xk ! i) = Inr (b2 ! i)" unfolding x_def [symmetric]
      proof (cases "x > wlimit self")
        case True
        with assms have "\<not> x < 0" by simp
        with g have "b2 ! i = b1 ! i" by simp
        with f True show "?p x = Inr (b2 ! i)" by simp
      next
        case False
        with f have z: "b1 ! i = 0" by simp
        show "?p x = Inr (b2 ! i)"
        proof (cases "x < 0")
          case True
          with g z have "bind_res (f64 (x * x)) (\<lambda>q. f64 (0 + q)) = Inr (b2 ! i)" by simp
          then obtain q where q: "f64 (x * x) = Inr q" and "f64 (0 + q) = Inr (b2 ! i)"
            by (blast dest: bind_res_Inr)
          with f64_idem [OF q] have "b2 ! i = q" by simp
          with q True False show ?thesis by simp
        next
          case nn: False
          with g z False show ?thesis by simp
        qed
      qed
    qed
    with t show "\<exists>y. map_res ?p xk = Inr y \<and> trapz64 order y (time self) = Inr b" by blast
  }
  {
    assume "\<exists>y. map_res ?p xk = Inr y \<and> trapz64 order y (time self) = Inr b"
    then obtain y where y: "map_res ?p xk = Inr y" and t: "trapz64 order y (time self) = Inr b"
      by blast
    note Y = map_res_Inr [OF y, THEN conjunct2, rule_format]
    define b1 where "b1 = map2 (\<lambda>x v. if x > wlimit self then v else 0) xk y"
    have l: "length y = length xk" "length b1 = length xk"
      using map_res_Inr [OF y] by (simp_all add: b1_def)
    have b1: "map_res ?f xk = Inr b1"
    proof (rule map_res_pointwise [OF l(2)], intro allI impI)
      fix i assume i: "i < length xk"
      have "?p (xk ! i) = Inr (y ! i)" by (rule Y [OF i])
      moreover have "b1 ! i = (if xk ! i > wlimit self then y ! i else 0)"
        using i l by (simp add: b1_def)
      ultimately show "?f (xk ! i) = Inr (b1 ! i)" by (auto split: if_splits)
    qed
    have b2: "map_res ?g (zip b1 xk) = Inr y"
    proof (rule map_res_pointwise, simp add: l, intro allI impI)
      fix i assume "i < length (zip b1 xk)"
      then have i: "i < length xk" using l by simp
      define x where "x = xk ! i"
      have p: "?p x = Inr (y ! i)" unfolding x_def by (rule Y [OF i])
      have bi: "b1 ! i = (if x > wlimit self then y ! i else 0)"
        using i l by (simp add: b1_def x_def)
      have "?g (b1 ! i, x) = Inr (y ! i)"
      proof (cases "x > wlimit self")
        case True
        with assms have "\<not> x < 0" by simp
        with True bi show ?thesis by simp
      next
        case False
        show ?thesis
        proof (cases "x < 0")
          case True
          with p False have q: "f64 (x * x) = Inr (y ! i)" by simp
          from f64_idem [OF q] q True False bi show ?thesis by (simp add: bind_res_def)
        next
          case nn: False
          with p False bi show ?thesis by simp
        qed
      qed
      moreover have "zip b1 xk ! i = (b1 ! i, x)" using i l by (simp add: x_def)
      ultimately show "?g (zip b1 xk ! i) = Inr (y ! i)" by (simp only:)
    qed
    show "barrier order self xk = Inr b"
      unfolding barrier_def b1 bind_res_of_Inr b2 by (rule t)
  }
qed

text \<open>
  Claim C4, as amended. On a time grid whose spacings are finite float64 values, with
  one sample per grid point and \<open>wlimit\<close> not negative, \<^verbatim>\<open>barrier\<close> returns exactly \<open>0\<close>
  when every sample lies in \<open>[0, wlimit]\<close>; on a sorted grid the value it returns is
  never negative; and the value is the trapezoid quadrature over the time grid of the
  pointwise penalty, the rounded square of the rounded excursion \<open>x - wlimit\<close> above the
  interval and the rounded square of \<open>x\<close> below it.
\<close>

theorem barrier_zero_inside_nonneg:
  assumes "summation_order order" and "length xk = length (time self)"
    and "map_res f64 (np_diff (time self)) = Inr d" and "0 \<le> wlimit self"
  shows "((\<forall>x\<in>set xk. 0 \<le> x \<and> x \<le> wlimit self) \<longrightarrow> barrier order self xk = Inr 0) \<and>
         (\<forall>b. sorted (time self) \<and> barrier order self xk = Inr b \<longrightarrow> 0 \<le> b) \<and>
         (\<forall>b. barrier order self xk = Inr b \<longleftrightarrow>
            (\<exists>y. map_res (\<lambda>x. if x > wlimit self
                                  then bind_res (f64 (x - wlimit self)) (\<lambda>d. f64 (d * d))
                                  else if x < 0 then f64 (x * x) else Inr 0) xk = Inr y \<and>
                 trapz64 order y (time self) = Inr b))"
proof (intro conjI allI)
  show "(\<forall>x\<in>set xk. 0 \<le> x \<and> x \<le> wlimit self) \<longrightarrow> barrier order self xk = Inr 0"
    by (rule barrier_zero_or_more [OF assms(1-3), THEN conjunct1])
  show "sorted (time self) \<and> barrier order self xk = Inr b \<longrightarrow> 0 \<le> b" for b
    by (rule barrier_zero_or_more [OF assms(1-3), THEN conjunct2, THEN spec])
  show "barrier order self xk = Inr b \<longleftrightarrow>
            (\<exists>y. map_res (\<lambda>x. if x > wlimit self
                                  then bind_res (f64 (x - wlimit self)) (\<lambda>d. f64 (d * d))
                                  else if x < 0 then f64 (x * x) else Inr 0) xk = Inr y \<and>
                 trapz64 order y (time self) = Inr b)" for b
    by (rule barrier_pointwise [OF assms(4)])
qed

theorem barrier_zero_inside_nonneg_witness:
  "summation_order index_order \<and>
   map_res f64 (np_diff (time opt_example)) = Inr [1 / 2, 1 / 2] \<and>
   0 \<le> wlimit opt_example \<and>
   barrier index_order opt_example [0, 1 / 2, 1] = Inr 0 \<and>
   (\<exists>b. sorted (time opt_example) \<and> barrier index_order opt_example [2, 0, 0] = Inr b \<and> 0 \<le> b)"
proof -
  have w: "wlimit opt_example = 1" and t: "time opt_example = [0, 1 / 2, 1]"
    by (simp_all add: opt_example_def)
  have w0: "0 \<le> wlimit opt_example" by (simp add: w)
  have l: "length [0, 1 / 2, 1 :: real] = length (time opt_example)"
    "length [2, 0, 0 :: real] = length (time opt_example)" by (simp_all add: t)
  note T1 = barrier_zero_inside_nonneg [OF index_order_summation l(1) time_example_diff w0]
  note T2 = barrier_zero_inside_nonneg [OF index_order_summation l(2) time_example_diff w0]
  have "\<forall>x\<in>set [0, 1 / 2, 1 :: real]. 0 \<le> x \<and> x \<le> wlimit opt_example" by (simp add: w)
  from T1 [THEN conjunct1, THEN mp, OF this]
  have A: "barrier index_order opt_example [0, 1 / 2, 1] = Inr 0" .
  have E: "barrier index_order opt_example [2, 0, 0] = Inr (1 / 4)"
    by (simp add: barrier_def w t bind_res_def trapz64_def np_op64_def np_broadcast_def
        f64_0 f64_1 f64_half f64_quarter np_sum64_index_2)
  have s: "sorted (time opt_example)" by (simp add: t)
  from s E have "sorted (time opt_example) \<and> barrier index_order opt_example [2, 0, 0] = Inr (1 / 4)" ..
  from T2 [THEN conjunct2, THEN conjunct1, THEN spec, THEN mp, OF this] have "(0::real) \<le> 1 / 4" .
  with s E have "sorted (time opt_example) \<and> barrier index_order opt_example [2, 0, 0] = Inr (1 / 4) \<and> (0::real) \<le> 1 / 4"
    by simp
  then have "\<exists>b. sorted (time opt_example) \<and> barrier index_order opt_example [2, 0, 0] = Inr b \<and> 0 \<le> b"
    by (rule exI)
  with A index_order_summation time_example_diff w0 show ?thesis by (intro conjI)
qed

section \<open>Trajectory normalisation\<close>

lemma map_res_f64_value:
  assumes "map_res (\<lambda>x. f64 (g x)) xs = Inr ys"
  shows "ys = map (\<lambda>x. f64_round (g x)) xs"
proof (rule nth_equalityI)
  show "length ys = length (map (\<lambda>x. f64_round (g x)) xs)"
    using map_res_Inr [OF assms] by simp
  fix i assume "i < length ys"
  then have i: "i < length xs" using map_res_Inr [OF assms] by simp
  from map_res_Inr [OF assms, THEN conjunct2, rule_format, OF i]
  have "ys ! i = f64_round (g (xs ! i))" by (rule f64_value)
  then show "ys ! i = map (\<lambda>x. f64_round (g x)) xs ! i" using i by simp
qed





lemma f64_of_int:
  assumes "\<bar>n\<bar> \<le> 2 ^ 53"
  shows "f64 (of_int n) = Inr (of_int n)"
proof -
  have "\<bar>real_of_int n\<bar> \<le> 2 ^ 53"
  proof -
    from assms have "real_of_int \<bar>n\<bar> \<le> real_of_int (2 ^ 53)" by (simp only: of_int_le_iff)
    then show ?thesis by simp
  qed
  also have "(2::real) ^ 53 < 2 ^ 1024" by (intro power_strict_increasing) simp_all
  finally have "\<bar>f64_round (of_int n)\<bar> < 2 ^ 1024" by (simp only: f64_round_int [OF assms])
  from f64_finite [OF this] show ?thesis by (simp only: f64_round_int [OF assms])
qed

lemma f64_2: "f64 2 = Inr 2"
  using f64_of_int [of 2] by simp

lemma f64_3: "f64 3 = Inr 3"
  using f64_of_int [of 3] by simp








section \<open>Setting the target density\<close>

lemma interp_array_total:
  assumes "\<forall>x\<in>set qs. f x = Inr (g x)"
  shows "interp_array f qs = Inr (map g qs)"
  using assms by (induction qs) (simp_all add: bind_res_def)

lemma uk_entry_value:
  assumes "index < length (hk self)" and "index < length (klist self)"
    and "hk self ! index \<noteq> 0" and "res self \<noteq> 0" and "length p = length (xlist self)"
  shows "uk_entry self p index =
     Inr ((\<Sum>i<length (xlist self). p ! i * cos (klist self ! index * xlist self ! i))
          * wlimit self / res self / hk self ! index)"
proof -
  let ?b = "map (\<lambda>b. wlimit self / res self * b) (map (\<lambda>x. cos (klist self ! index * x)) (xlist self))"
  let ?u = "map (\<lambda>v. v / hk self ! index) p"
  have A: "np_inplace (*) ?u ?b = Inr (map2 (*) ?u ?b)"
    using assms(5) by (simp add: np_inplace_def)
  have B: "np_sum (map2 (*) ?u ?b) =
      (\<Sum>i<length (xlist self). p ! i * cos (klist self ! index * xlist self ! i)) * wlimit self / res self / hk self ! index"
  proof -
    have "np_sum (map2 (*) ?u ?b) = (\<Sum>i<length (xlist self). (p ! i / hk self ! index) *
         (wlimit self / res self * cos (klist self ! index * xlist self ! i)))"
      using assms(5) by (simp add: np_sum_def sum_list_sum_nth atLeast0LessThan)
    also have "\<dots> = (\<Sum>i<length (xlist self). (p ! i * cos (klist self ! index * xlist self ! i)) *
         (wlimit self / res self / hk self ! index))"
      by (intro sum.cong refl) (simp add: mult_ac)
    also have "\<dots> = (\<Sum>i<length (xlist self). p ! i * cos (klist self ! index * xlist self ! i))
         * (wlimit self / res self / hk self ! index)"
      by (simp only: sum_distrib_right)
    finally show ?thesis by simp
  qed
  have c: "(length (hk self) \<le> index) = False" "(p \<noteq> [] \<and> hk self ! index = 0) = False"
    "(length (klist self) \<le> index) = False" "(res self = 0) = False"
    using assms(1-4) by simp_all
  show ?thesis
    unfolding uk_entry_def Let_def
    by (simp only: c if_False A bind_res_def sum.case B)
qed

lemma uk_loop_total:
  assumes "\<forall>k\<in>set ks. uk_entry self p k = Inr (g k)"
  shows "uk_loop self p ks = Inr (map g ks)"
  using assms by (induction ks) (simp_all add: bind_res_def)

lemma set_pdf_run:
  assumes "sorted_wrt (<) (eidTime self)" and "length pdf0 = length (eidTime self)"
    and "2 \<le> length (eidTime self)"
    and "\<forall>x\<in>set (xlist self). hd (eidTime self) \<le> x \<and> x \<le> last (eidTime self)"
    and "xlist self \<noteq> []"
    and "np_sum64 order (map (linear_interp (eidTime self) pdf0) (xlist self)) = Inr sm"
    and "f64 (sm / real (length (xlist self))) = Inr d" and "d \<noteq> 0"
    and "map_res (\<lambda>v. f64 (v / d)) (map (linear_interp (eidTime self) pdf0) (xlist self)) = Inr q"
    and "length (hk self) = nat (Nfourier self)" and "length (klist self) = nat (Nfourier self)"
    and "\<forall>k<nat (Nfourier self). hk self ! k \<noteq> 0" and "res self \<noteq> 0"
  shows "\<exists>self' u. set_pdf order self pdf0 = Inr self' \<and> pdf self' = Some q \<and> uk self' = Some u \<and>
           d = f64_round (sm / real (length (xlist self))) \<and>
           q = map (\<lambda>v. f64_round (v / d)) (map (linear_interp (eidTime self) pdf0) (xlist self)) \<and>
           length q = length (xlist self) \<and>
           length u = nat (Nfourier self) \<and>
           (\<forall>k<nat (Nfourier self).
              u ! k = (\<Sum>i<length (xlist self). q ! i * cos (klist self ! k * xlist self ! i))
                        * wlimit self / res self / hk self ! k)"
proof -
  define r where "r = map (linear_interp (eidTime self) pdf0) (xlist self)"
  define g where "g = (\<lambda>k. (\<Sum>i<length (xlist self). q ! i * cos (klist self ! k * xlist self ! i))
                        * wlimit self / res self / hk self ! k)"
  define u where "u = map g [0..<nat (Nfourier self)]"
  let ?s1 = "self\<lparr>pdf := Some q\<rparr>"
  have i1: "interp1d (eidTime self) pdf0 = Inr (interp1d_call (eidTime self) pdf0)"
    by (rule interp1d_sorted [OF assms(1,2,3)])
  have i2: "interp_array (interp1d_call (eidTime self) pdf0) (xlist self) = Inr r"
    unfolding r_def
  proof (rule interp_array_total, rule ballI)
    fix x assume "x \<in> set (xlist self)"
    then have "hd (eidTime self) \<le> x" "x \<le> last (eidTime self)" using assms(4) by simp_all
    then show "interp1d_call (eidTime self) pdf0 x = Inr (linear_interp (eidTime self) pdf0 x)"
      by (rule interp1d_call_inside [OF assms(1,3)])
  qed
  have rlen: "length r = length (xlist self)" by (simp add: r_def)
  have rne: "r \<noteq> []" using assms(5) by (simp add: r_def)
  have sm: "np_sum64 order r = Inr sm" using assms(6) by (simp add: r_def)
  have dd: "f64 (sm / real (length r)) = Inr d" using assms(7) by (simp add: rlen)
  have qq: "map_res (\<lambda>v. f64 (v / d)) r = Inr q" using assms(9) by (simp add: r_def)
  have i3: "normalize_pdf order (self\<lparr>pdf := Some r\<rparr>) = Inr ?s1"
    unfolding normalize_pdf_def using rne assms(8)
    by (simp add: sm dd qq bind_res_of_Inr)
  have qv: "q = map (\<lambda>v. f64_round (v / d)) r" by (rule map_res_f64_value [OF qq])
  have qlen: "length q = length (xlist self)" by (simp add: qv rlen)
  have i4: "uk_loop ?s1 q [0..<nat (Nfourier self)] = Inr u"
    unfolding u_def
  proof (rule uk_loop_total, rule ballI)
    fix k assume "k \<in> set [0..<nat (Nfourier self)]"
    then have k: "k < nat (Nfourier self)" by simp
    have "uk_entry ?s1 q k =
       Inr ((\<Sum>i<length (xlist ?s1). q ! i * cos (klist ?s1 ! k * xlist ?s1 ! i))
          * wlimit ?s1 / res ?s1 / hk ?s1 ! k)"
      using k assms(10-13) qlen by (intro uk_entry_value) simp_all
    then show "uk_entry ?s1 q k = Inr (g k)" by (simp add: g_def)
  qed
  have p1: "pdf ?s1 = Some q" by simp
  have run: "set_pdf order self pdf0 = Inr (?s1\<lparr>uk := Some u\<rparr>)"
    unfolding set_pdf_def i1 bind_res_of_Inr i2 i3 p1 option.case calculate_uk_def
    by (simp add: i4 bind_res_of_Inr)
  have uk: "u ! k = g k" if "k < nat (Nfourier self)" for k
    using that by (simp add: u_def)
  show ?thesis
    unfolding r_def [symmetric]
  proof (rule exI [of _ "?s1\<lparr>uk := Some u\<rparr>"], rule exI [of _ u], intro conjI allI impI)
    show "set_pdf order self pdf0 = Inr (?s1\<lparr>uk := Some u\<rparr>)" by (rule run)
    show "pdf (?s1\<lparr>uk := Some u\<rparr>) = Some q" by simp
    show "uk (?s1\<lparr>uk := Some u\<rparr>) = Some u" by simp
    show "d = f64_round (sm / real (length (xlist self)))" using assms(7) by (rule f64_value)
    show "q = map (\<lambda>v. f64_round (v / d)) r" by (rule qv)
    show "length q = length (xlist self)" by (rule qlen)
    show "length u = nat (Nfourier self)" by (simp add: u_def)
    show "u ! k = (\<Sum>i<length (xlist self). q ! i * cos (klist self ! k * xlist self ! i))
                        * wlimit self / res self / hk self ! k" if "k < nat (Nfourier self)" for k
      using uk [OF that] by (simp add: g_def)
  qed
qed

lemma f64_exponent_subnormal:
  assumes "x \<noteq> 0" and "\<bar>x\<bar> < 1 / 2 ^ 1022"
  shows "f64_exponent x = - 1074"
proof -
  have "\<bar>x\<bar> < 2 powr (- 1022)"
    using assms(2) by (simp add: powr_minus powr_realpow divide_simps)
  then have "log 2 \<bar>x\<bar> < - 1022"
    using assms(1) by (simp add: log_less_iff)
  moreover have "real_of_int \<lfloor>log 2 \<bar>x\<bar>\<rfloor> \<le> log 2 \<bar>x\<bar>" by (rule of_int_floor_le)
  ultimately have "real_of_int \<lfloor>log 2 \<bar>x\<bar>\<rfloor> < real_of_int (- 1022)" by linarith
  then have "\<lfloor>log 2 \<bar>x\<bar>\<rfloor> < - 1022" by (simp only: of_int_less_iff)
  then have "\<lfloor>log 2 \<bar>x\<bar>\<rfloor> - 52 \<le> - 1074" by linarith
  then show ?thesis unfolding f64_exponent_def by (rule max_absorb2)
qed

lemma f64_round_subnormal:
  assumes "x \<noteq> 0" and "\<bar>x\<bar> < 1 / 2 ^ 1022"
  shows "f64_round x = of_int (round_half_even (x * 2 ^ 1074)) / 2 ^ 1074"
proof -
  have e: "f64_exponent x = - 1074" by (rule f64_exponent_subnormal [OF assms])
  have p: "2 powr (- 1074) = 1 / (2::real) ^ 1074"
    by (simp add: powr_minus powr_realpow divide_simps)
  show ?thesis using assms(1) by (simp add: f64_round_def e p)
qed

lemma f64_two_thirds_smallest: "f64 (1 / 2 ^ 1073 / 3) = Inr (1 / 2 ^ 1074)"
proof -
  have "round_half_even (2 / 3) = 1" by (simp add: round_half_even_def)
  moreover have "(1::real) / 2 ^ 1073 / 3 * 2 ^ 1074 = 2 / 3" by simp
  ultimately have r: "f64_round (1 / 2 ^ 1073 / 3) = 1 / 2 ^ 1074"
    using f64_round_subnormal [of "1 / 2 ^ 1073 / 3"] by simp
  have "\<bar>(1::real) / 2 ^ 1074\<bar> \<le> 1" by (simp add: divide_simps)
  also have "(1::real) < 2 ^ 1024" by (rule one_less_power) simp_all
  finally have "\<bar>f64_round (1 / 2 ^ 1073 / 3)\<bar> < 2 ^ 1024" by (simp only: r)
  from f64_finite [OF this] show ?thesis by (simp only: r)
qed

lemma f64_3_2: "f64 (3 / 2) = Inr (3 / 2)"
proof -
  have r: "f64_round (3 / 2) = 3 / 2" using f64_round_int_over_pow2 [of 3 1] by simp
  have "\<bar>f64_round (3 / 2)\<bar> < 2 ^ 1024" unfolding r by simp
  from f64_finite [OF this] show ?thesis by (simp only: r)
qed

lemma f64_6: "f64 6 = Inr 6"
  using f64_of_int [of 6] by simp

text \<open>
  Claim C6, as amended. When the supplied density is given on the strictly increasing
  grid \<^verbatim>\<open>eidTime\<close> that covers \<^verbatim>\<open>xlist\<close>, and the sum of its resampled values, the mean
  \<open>d\<close> rounded from it and the quotients by \<open>d\<close> are finite with \<open>d\<close> not zero, \<^verbatim>\<open>set_pdf\<close>
  returns with \<^verbatim>\<open>self.pdf\<close> the linear interpolation of the density at the points of
  \<^verbatim>\<open>xlist\<close>, every value divided by \<open>d\<close> and rounded, and with
  \<open>uk[k] = (\<Sum> pdf \<cdot> cos(klist[k] \<cdot> x)) \<cdot> wlimit / res / hk[k]\<close> for every \<open>k\<close> below \<open>nFourier\<close>.
\<close>

theorem set_pdf_resample_normalize:
  assumes "sorted_wrt (<) (eidTime self)" and "length pdf0 = length (eidTime self)"
    and "2 \<le> length (eidTime self)"
    and "\<forall>x\<in>set (xlist self). hd (eidTime self) \<le> x \<and> x \<le> last (eidTime self)"
    and "xlist self \<noteq> []"
    and "np_sum64 order (map (linear_interp (eidTime self) pdf0) (xlist self)) = Inr sm"
    and "f64 (sm / real (length (xlist self))) = Inr d" and "d \<noteq> 0"
    and "map_res (\<lambda>v. f64 (v / d)) (map (linear_interp (eidTime self) pdf0) (xlist self)) = Inr q"
    and "length (hk self) = nat (Nfourier self)" and "length (klist self) = nat (Nfourier self)"
    and "\<forall>k<nat (Nfourier self). hk self ! k \<noteq> 0" and "res self \<noteq> 0"
  shows "\<exists>self' u. set_pdf order self pdf0 = Inr self' \<and> pdf self' = Some q \<and> uk self' = Some u \<and>
           d = f64_round (sm / real (length (xlist self))) \<and>
           q = map (\<lambda>v. f64_round (v / d)) (map (linear_interp (eidTime self) pdf0) (xlist self)) \<and>
           length q = length (xlist self) \<and>
           length u = nat (Nfourier self) \<and>
           (\<forall>k<nat (Nfourier self).
              u ! k = (\<Sum>i<length (xlist self). q ! i * cos (klist self ! k * xlist self ! i))
                        * wlimit self / res self / hk self ! k)"  using assms by (rule set_pdf_run)

lemma example_grid:
  "eidTime opt_example = [0, 1/2, 1]" "xlist opt_example = [0, 1/2, 1]"
  "res opt_example = 3" "nat (Nfourier opt_example) = 3"
  "hk opt_example = hk_init quad_example (klist_init 1 3)"
  "klist opt_example = klist_init 1 3"
  by (simp_all add: opt_example_def)

lemma example_resample:
  "map (linear_interp (eidTime opt_example) [a, b, c]) (xlist opt_example) = [a, b, c]"
  by (simp add: example_grid linear_interp_def interp_hi_def searchsorted_def Let_def)
    (simp add: field_simps)

lemma example_pdf_ready:
  "sorted_wrt (<) (eidTime opt_example)"
  "length [a, b, c :: real] = length (eidTime opt_example)"
  "2 \<le> length (eidTime opt_example)"
  "\<forall>x\<in>set (xlist opt_example). hd (eidTime opt_example) \<le> x \<and> x \<le> last (eidTime opt_example)"
  "xlist opt_example \<noteq> []"
  "length (hk opt_example) = nat (Nfourier opt_example)"
  "length (klist opt_example) = nat (Nfourier opt_example)"
  "\<forall>k<nat (Nfourier opt_example). hk opt_example ! k \<noteq> 0"
  "res opt_example \<noteq> 0"
proof -
  show "sorted_wrt (<) (eidTime opt_example)"
    "length [a, b, c :: real] = length (eidTime opt_example)"
    "2 \<le> length (eidTime opt_example)"
    "\<forall>x\<in>set (xlist opt_example). hd (eidTime opt_example) \<le> x \<and> x \<le> last (eidTime opt_example)"
    "xlist opt_example \<noteq> []" "res opt_example \<noteq> 0"
    by (simp_all add: example_grid(1-3))
  show "length (hk opt_example) = nat (Nfourier opt_example)"
    "length (klist opt_example) = nat (Nfourier opt_example)"
    "\<forall>k<nat (Nfourier opt_example). hk opt_example ! k \<noteq> 0"
    using hk_example_fields by (simp_all add: example_grid(4))
qed

text \<open>
  The mean of the normalised density is not always \<open>1\<close>: the resampled density
  \<open>[0, 0, 2\<^sup>-\<^sup>1\<^sup>0\<^sup>7\<^sup>3]\<close> has the mean \<open>2\<^sup>-\<^sup>1\<^sup>0\<^sup>7\<^sup>3 / 3\<close>, which rounds to \<open>2\<^sup>-\<^sup>1\<^sup>0\<^sup>7\<^sup>4\<close>, and the
  density stored is \<open>[0, 0, 2]\<close>, with mean \<open>2/3\<close>.
\<close>

theorem set_pdf_mean_counterexample:
  "map_sum id pdf (set_pdf index_order opt_example [0, 0, 1 / 2 ^ 1073]) = Inr (Some [0, 0, 2]) \<and>
   (0 + 0 + 2) / 3 \<noteq> (1::real)"
proof -
  define w :: real where "w = 1 / 2 ^ 1073"
  define u :: real where "u = 1 / 2 ^ 1074"
  have u0: "u \<noteq> 0" by (simp add: u_def)
  have wu: "w / u = 2" by (simp add: w_def u_def)
  have fw: "f64 w = Inr w" unfolding w_def by (rule f64_inverse_pow2) simp
  have r: "map (linear_interp (eidTime opt_example) [0, 0, w]) (xlist opt_example) = [0, 0, w]"
    by (rule example_resample)
  have sm: "np_sum64 index_order (map (linear_interp (eidTime opt_example) [0, 0, w]) (xlist opt_example)) = Inr w"
    unfolding r by (simp add: np_sum64_index_3 bind_res_def f64_0 fw)
  have d: "f64 (w / real (length (xlist opt_example))) = Inr u"
    unfolding w_def u_def using f64_two_thirds_smallest by (simp add: example_grid)
  have q: "map_res (\<lambda>v. f64 (v / u)) (map (linear_interp (eidTime opt_example) [0, 0, w]) (xlist opt_example))
      = Inr [0, 0, 2]"
    unfolding r by (simp add: bind_res_def f64_0 wu f64_2)
  from set_pdf_run [OF example_pdf_ready(1-5) sm d u0 q example_pdf_ready(6-9)]
  obtain self' where "set_pdf index_order opt_example [0, 0, w] = Inr self'" "pdf self' = Some [0, 0, 2]"
    by blast
  then have "map_sum id pdf (set_pdf index_order opt_example [0, 0, w]) = Inr (Some [0, 0, 2])"
    by simp
  then show ?thesis unfolding w_def by simp
qed

theorem set_pdf_resample_normalize_witness:
  "summation_order index_order \<and>
   (\<exists>self' u. set_pdf index_order opt_example [1, 2, 3] = Inr self' \<and>
      pdf self' = Some [1 / 2, 1, 3 / 2] \<and> uk self' = Some u \<and> length u = 3)"
proof -
  have r: "map (linear_interp (eidTime opt_example) [1, 2, 3]) (xlist opt_example) = [1, 2, 3]"
    by (rule example_resample)
  have sm: "np_sum64 index_order (map (linear_interp (eidTime opt_example) [1, 2, 3]) (xlist opt_example)) = Inr 6"
    unfolding r by (simp add: np_sum64_index_3 bind_res_def f64_3 f64_6)
  have d: "f64 (6 / real (length (xlist opt_example))) = Inr 2"
    by (simp add: example_grid f64_2)
  have q: "map_res (\<lambda>v. f64 (v / 2)) (map (linear_interp (eidTime opt_example) [1, 2, 3]) (xlist opt_example))
      = Inr [1 / 2, 1, 3 / 2]"
    unfolding r by (simp add: bind_res_def f64_half f64_1 f64_3_2)
  have two: "(2::real) \<noteq> 0" by simp
  from set_pdf_resample_normalize [OF example_pdf_ready(1-5) sm d two q example_pdf_ready(6-9)]
  obtain self' u where "set_pdf index_order opt_example [1, 2, 3] = Inr self'"
    "pdf self' = Some [1 / 2, 1, 3 / 2]" "uk self' = Some u" "length u = nat (Nfourier opt_example)"
    by blast
  then have "set_pdf index_order opt_example [1, 2, 3] = Inr self' \<and>
      pdf self' = Some [1 / 2, 1, 3 / 2] \<and> uk self' = Some u \<and> length u = 3"
    by (simp add: example_grid)
  then have "\<exists>self' u. set_pdf index_order opt_example [1, 2, 3] = Inr self' \<and>
      pdf self' = Some [1 / 2, 1, 3 / 2] \<and> uk self' = Some u \<and> length u = 3"
    by (intro exI)
  with index_order_summation show ?thesis by (intro conjI)
qed

end
